theory Spec2Isabelle
  imports Complex_Main "HOL-Library.Word" "HOL-Library.AList" "HOL-Library.Multiset"
    "HOL-Library.List_Lexorder" "HOL-Library.Product_Lexorder" "HOL-Library.Char_ord"
begin

section \<open>Byte strings and bit arrays\<close>

text \<open>
  Clade and split identifiers of \<^verbatim>\<open>libscculs.py\<close> are Python 2 byte strings. A byte is an
  8-bit word, a byte string a list of bytes. The \<^verbatim>\<open>uint8\<close> arrays that only ever hold 0 and 1
  (\<^verbatim>\<open>parent_boolean\<close>, \<^verbatim>\<open>split_boolean\<close>, \<^verbatim>\<open>child1_bits\<close>, ...) are lists of booleans.
\<close>

type_synonym byte = "8 word"
type_synonym bytes = "byte list"

datatype error = KeyError | IndexError | ValueError | NameError | TypeError

text \<open>\<^verbatim>\<open>numpy.packbits\<close>: eight bits per byte, most significant bit first, the last byte
  padded with zero bits.\<close>

definition pack8 :: "bool list \<Rightarrow> byte" where
  "pack8 bs = horner_sum of_bool 2 (rev bs)"

function packbits :: "bool list \<Rightarrow> bytes" where
  "packbits bs =
     (if bs = [] then []
      else pack8 (take 8 (bs @ replicate 7 False)) # packbits (drop 8 bs))"
  by pat_completeness auto
termination
  by (relation "measure length") auto

declare packbits.simps [simp del]

text \<open>\<^verbatim>\<open>numpy.unpackbits\<close>: every byte gives its eight bits, most significant first.\<close>

definition unpack8 :: "byte \<Rightarrow> bool list" where
  "unpack8 w = map (bit w) [7, 6, 5, 4, 3, 2, 1, 0]"

definition unpackbits :: "bytes \<Rightarrow> bool list" where
  "unpackbits s = concat (map unpack8 s)"

text \<open>\<^verbatim>\<open>s.rstrip("\x00")\<close>: the trailing zero bytes are removed.\<close>

definition rstrip0 :: "bytes \<Rightarrow> bytes" where
  "rstrip0 s = rev (dropWhile (\<lambda>b. b = 0) (rev s))"

text \<open>A loop whose body may raise: the first error ends it.\<close>

fun for_each :: "('a \<Rightarrow> 's \<Rightarrow> error + 's) \<Rightarrow> 'a list \<Rightarrow> 's \<Rightarrow> error + 's" where
  "for_each f [] s = Inr s"
| "for_each f (x # xs) s = (case f x s of Inl e \<Rightarrow> Inl e | Inr s' \<Rightarrow> for_each f xs s')"

section \<open>Clade/split codec\<close>

text \<open>
  \<^verbatim>\<open>calculate_node_hashes(children_a, children_b, taxon_order)\<close>. The loop state is
  \<^verbatim>\<open>(i, a_first, parent_boolean, split_boolean)\<close>; \<^verbatim>\<open>a_first\<close> is unbound (\<open>None\<close>) until
  its first assignment, and reading it unbound would raise \<^verbatim>\<open>NameError\<close>.
\<close>

type_synonym hash_state = "nat \<times> bool option \<times> bool list \<times> bool list"

definition node_hash_step ::
  "'a set \<Rightarrow> 'a set \<Rightarrow> 'a list \<Rightarrow> nat \<Rightarrow> hash_state \<Rightarrow> error + hash_state" where
  "node_hash_step children_a children_b taxon_order j st =
     (case st of (i, a_first, parent_boolean, split_boolean) \<Rightarrow>
        let t = taxon_order ! j in
        if t \<in> children_a \<union> children_b then
          let parent_boolean' = parent_boolean[j := True];
              a_first' = (if i = 0 then Some (t \<in> children_a) else a_first)
          in (case a_first' of
                None \<Rightarrow> Inl NameError
              | Some af \<Rightarrow>
                  Inr (i + 1, a_first', parent_boolean',
                       (if (t \<in> children_b) \<noteq> af then split_boolean[i := True]
                        else split_boolean)))
        else Inr st)"

definition calculate_node_hashes ::
  "'a set \<Rightarrow> 'a set \<Rightarrow> 'a list \<Rightarrow> error + bytes \<times> bytes" where
  "calculate_node_hashes children_a children_b taxon_order =
     (let n_taxa = length taxon_order in
      case for_each (node_hash_step children_a children_b taxon_order) [0..<n_taxa]
             (0, None, replicate n_taxa False, replicate n_taxa False) of
        Inl e \<Rightarrow> Inl e
      | Inr (i, a_first, parent_boolean, split_boolean) \<Rightarrow>
          Inr (packbits parent_boolean, packbits split_boolean))"

text \<open>\<^verbatim>\<open>clade_size(clade_hash)\<close>: the number of set bits.\<close>

definition clade_size :: "bytes \<Rightarrow> nat" where
  "clade_size clade_hash = length (filter (\<lambda>b. b) (unpackbits clade_hash))"


text \<open>
  \<^verbatim>\<open>elucidate_cc_split(parent_id, split_id)\<close>. The loop state is
  \<^verbatim>\<open>(j, child1_bits, child2_bits)\<close>.
\<close>

definition elucidate_step ::
  "bool list \<Rightarrow> bool list \<Rightarrow> nat \<Rightarrow> nat \<times> bool list \<times> bool list \<Rightarrow> nat \<times> bool list \<times> bool list" where
  "elucidate_step parent_id_bits split_id_bits i st =
     (case st of (j, child1_bits, child2_bits) \<Rightarrow>
        if parent_id_bits ! i then
          (if j < length split_id_bits then
             (if split_id_bits ! j then (j + 1, child1_bits[i := True], child2_bits)
              else (j + 1, child1_bits, child2_bits[i := True]))
           else (j + 1, child1_bits, child2_bits[i := True]))
        else st)"

definition elucidate_cc_split :: "bytes \<Rightarrow> bytes \<Rightarrow> bytes \<times> bytes" where
  "elucidate_cc_split parent_id split_id =
     (let parent_id_bits = unpackbits parent_id;
          split_id_bits = unpackbits split_id;
          n_parent_bits = length parent_id_bits
      in case fold (elucidate_step parent_id_bits split_id_bits) [0..<n_parent_bits]
                (0, replicate n_parent_bits False, replicate n_parent_bits False) of
           (j, child1_bits, child2_bits) \<Rightarrow>
             (rstrip0 (packbits child1_bits), rstrip0 (packbits child2_bits)))"

text \<open>\<^verbatim>\<open>clade_taxon_names(clade_hash, taxon_order)\<close>; \<^verbatim>\<open>taxon_order[i]\<close> raises
  \<^verbatim>\<open>IndexError\<close> beyond the end of the list.\<close>

definition taxon_names_step :: "bool list \<Rightarrow> 'a list \<Rightarrow> nat \<Rightarrow> 'a list \<Rightarrow> error + 'a list" where
  "taxon_names_step clade_node_bits taxon_order i taxon_names =
     (if clade_node_bits ! i then
        (if i < length taxon_order then Inr (taxon_names @ [taxon_order ! i])
         else Inl IndexError)
      else Inr taxon_names)"

definition clade_taxon_names :: "bytes \<Rightarrow> 'a list \<Rightarrow> error + 'a list" where
  "clade_taxon_names clade_hash taxon_order =
     (let clade_node_bits = unpackbits clade_hash;
          n_bits = length clade_node_bits
      in for_each (taxon_names_step clade_node_bits taxon_order) [0..<n_bits] [])"

subsection \<open>Notions used to state and prove the codec properties\<close>

text \<open>
  \<open>bit_at bs i\<close> reads bit \<open>i\<close> of a bit array, a position beyond its end counting as 0;
  \<open>rank bs i\<close> is the number of set bits before position \<open>i\<close>. \<open>members\<close> are the taxa
  of the clade in taxon order, \<open>split_mark\<close> the split bit of a member, and \<open>hash_inv\<close> the
  state of the encoding loop after \<open>k\<close> iterations. \<open>clade_positions\<close> is the taxon set an
  identifier denotes, as the set of its set bit positions. \<open>cherry_hash\<close> is the sentinel
  \<^verbatim>\<open>"\x80"\<close> of \<^verbatim>\<open>derive_best_topologies\<close>. \<open>recovers_bipartition\<close> decodes an
  identifier pair back to names with the two source functions and compares with the
  two leaf-name sets.
\<close>

definition bit_at :: "bool list \<Rightarrow> nat \<Rightarrow> bool" where
  "bit_at bs i = (i < length bs \<and> bs ! i)"

definition rank :: "bool list \<Rightarrow> nat \<Rightarrow> nat" where
  "rank bs i = length (filter (\<lambda>b. b) (take i bs))"

definition members :: "'a set \<Rightarrow> 'a set \<Rightarrow> 'a list \<Rightarrow> 'a list" where
  "members A B xs = filter (\<lambda>t. t \<in> A \<union> B) xs"

definition split_mark :: "'a set \<Rightarrow> 'a set \<Rightarrow> 'a list \<Rightarrow> 'a \<Rightarrow> bool" where
  "split_mark A B ms t = ((t \<in> B) \<noteq> (hd ms \<in> A))"

definition hash_inv :: "'a set \<Rightarrow> 'a set \<Rightarrow> 'a list \<Rightarrow> nat \<Rightarrow> nat \<times> bool option \<times> bool list \<times> bool list" where
  "hash_inv A B order k =
     (let ms = members A B (take k order) in
      (length ms,
       (case ms of [] \<Rightarrow> None | t # _ \<Rightarrow> Some (t \<in> A)),
       map (\<lambda>t. t \<in> A \<union> B) (take k order) @ replicate (length order - k) False,
       map (split_mark A B ms) ms @ replicate (length order - length ms) False))"

definition clade_positions :: "bytes \<Rightarrow> nat set" where
  "clade_positions c = set (filter (\<lambda>i. unpackbits c ! i) [0..<length (unpackbits c)])"

definition cherry_hash :: bytes where
  "cherry_hash = [0x80]"

definition recovers_bipartition :: "'a list \<Rightarrow> 'a set \<Rightarrow> 'a set \<Rightarrow> bytes \<Rightarrow> bytes \<Rightarrow> bool" where
  "recovers_bipartition taxon_order A B parent_id split_id =
     (case elucidate_cc_split parent_id split_id of
        (child1_id, child2_id) \<Rightarrow>
          (case (clade_taxon_names child1_id taxon_order, clade_taxon_names child2_id taxon_order) of
             (Inr names1, Inr names2) \<Rightarrow>
               (set names1 = A \<and> set names2 = B) \<or> (set names1 = B \<and> set names2 = A)
           | _ \<Rightarrow> False))"
section \<open>Discrete probability tables\<close>

text \<open>
  \<^verbatim>\<open>class DiscreteProbabilities\<close>. The object is a record of its attributes; a method takes
  the object and returns the updated object, or the exception it raises. A Python
  \<^verbatim>\<open>dict\<close> that is only looked up is a map; one that is iterated is the list of its items
  in iteration order. A one-dimensional \<^verbatim>\<open>numpy\<close> array is a list.

  A Python float is a value of a type \<open>'f\<close> of which only the operations the code uses
  are named (\<open>0\<close>, \<open>+\<close>, \<open>-\<close>, the order); nothing is assumed about how they round, so what
  is proved of the tables holds for the 64-bit floats of the program as for the real
  numbers.
\<close>

record ('k, 'd, 'f) table =
  n_features :: nat
  hashes_array :: "'k list"
  data_array :: "'d list"
  probabilities :: "'k \<rightharpoonup> 'f"
  probabilities_array :: "'f list"

text \<open>\<^verbatim>\<open>[m[k] for k in ks]\<close>: a missing key raises \<^verbatim>\<open>KeyError\<close>.\<close>

fun lookup_all :: "('k \<rightharpoonup> 'v) \<Rightarrow> 'k list \<Rightarrow> error + 'v list" where
  "lookup_all m [] = Inr []"
| "lookup_all m (k # ks) =
     (case m k of
        None \<Rightarrow> Inl KeyError
      | Some v \<Rightarrow> (case lookup_all m ks of Inl e \<Rightarrow> Inl e | Inr vs \<Rightarrow> Inr (v # vs)))"

definition convert_probabilities :: "('k, 'd, 'f) table \<Rightarrow> error + ('k, 'd, 'f) table" where
  "convert_probabilities self =
     (case lookup_all (probabilities self) (hashes_array self) of
        Inl e \<Rightarrow> Inl e
      | Inr sorted_probabilities \<Rightarrow> Inr (self\<lparr>probabilities_array := sorted_probabilities\<rparr>))"

text \<open>\<^verbatim>\<open>add_probabilities(self, probabilities)\<close>: the argument is indexed at every key of
  the table.\<close>

definition add_probabilities_step :: "('k \<rightharpoonup> 'f) \<Rightarrow> 'k \<Rightarrow> ('k \<rightharpoonup> 'f) \<Rightarrow> error + ('k \<rightharpoonup> 'f)" where
  "add_probabilities_step new_probabilities feature_hash own =
     (case new_probabilities feature_hash of
        None \<Rightarrow> Inl KeyError
      | Some p \<Rightarrow> Inr (own(feature_hash \<mapsto> p)))"

definition add_probabilities ::
  "('k, 'd, 'f) table \<Rightarrow> ('k \<rightharpoonup> 'f) \<Rightarrow> error + ('k, 'd, 'f) table" where
  "add_probabilities self new_probabilities =
     (case for_each (add_probabilities_step new_probabilities) (hashes_array self)
             (probabilities self) of
        Inl e \<Rightarrow> Inl e
      | Inr own \<Rightarrow> convert_probabilities (self\<lparr>probabilities := own\<rparr>))"

text \<open>
  \<^verbatim>\<open>probabilities_from_counts(self, counts)\<close>. The library functions on floats are
  parameters: \<open>math_log\<close> for \<^verbatim>\<open>math.log\<close> of a count, which raises \<^verbatim>\<open>ValueError\<close> unless the
  count is positive, \<open>math_exp\<close> for \<^verbatim>\<open>math.exp\<close> and \<open>logaddexp\<close> for \<^verbatim>\<open>numpy.logaddexp\<close>,
  whose \<^verbatim>\<open>reduce\<close> folds the list from its first element. \<^verbatim>\<open>log_sum_of_counts\<close> is \<^verbatim>\<open>None\<close> for
  no counts, and subtracting \<^verbatim>\<open>None\<close> would raise \<^verbatim>\<open>TypeError\<close>.
\<close>

definition log_counts_step ::
  "(int \<Rightarrow> 'f) \<Rightarrow> 'k \<times> int \<Rightarrow> ('k \<rightharpoonup> 'f) \<times> 'f list \<Rightarrow> error + ('k \<rightharpoonup> 'f) \<times> 'f list" where
  "log_counts_step math_log item st =
     (case (item, st) of ((count_hash, cnt), (log_counts, all_log_counts)) \<Rightarrow>
        if cnt \<le> 0 then Inl ValueError
        else let log_count = math_log cnt
             in Inr (log_counts(count_hash \<mapsto> log_count), all_log_counts @ [log_count]))"

definition normalize_step ::
  "('f \<Rightarrow> 'f) \<Rightarrow> ('k \<rightharpoonup> 'f) \<Rightarrow> 'f option \<Rightarrow> 'k \<Rightarrow> ('k \<rightharpoonup> 'f::{minus,zero}) \<Rightarrow>
   error + ('k \<rightharpoonup> 'f)" where
  "normalize_step math_exp log_counts log_sum_of_counts feature_hash own =
     (case log_counts feature_hash of
        Some log_count \<Rightarrow>
          (case log_sum_of_counts of
             None \<Rightarrow> Inl TypeError
           | Some log_sum \<Rightarrow> Inr (own(feature_hash \<mapsto> math_exp (log_count - log_sum))))
      | None \<Rightarrow> Inr (own(feature_hash \<mapsto> 0)))"

definition probabilities_from_counts ::
  "(int \<Rightarrow> 'f) \<Rightarrow> ('f \<Rightarrow> 'f) \<Rightarrow> ('f \<Rightarrow> 'f \<Rightarrow> 'f) \<Rightarrow>
   ('k, 'd, 'f::{minus,zero}) table \<Rightarrow> ('k \<times> int) list \<Rightarrow> error + ('k, 'd, 'f) table" where
  "probabilities_from_counts math_log math_exp logaddexp self counts =
     (case for_each (log_counts_step math_log) counts (Map.empty, []) of
        Inl e \<Rightarrow> Inl e
      | Inr (log_counts, all_log_counts) \<Rightarrow>
          (let log_sum_of_counts =
                 (case all_log_counts of
                    [] \<Rightarrow> None
                  | x # xs \<Rightarrow> Some (foldl logaddexp x xs))
           in (case for_each (normalize_step math_exp log_counts log_sum_of_counts)
                      (hashes_array self) (probabilities self) of
                 Inl e \<Rightarrow> Inl e
               | Inr own \<Rightarrow> convert_probabilities (self\<lparr>probabilities := own\<rparr>))))"

text \<open>
  \<^verbatim>\<open>cull_probabilities(self, max_features, max_probability)\<close>. \<^verbatim>\<open>numpy.argsort\<close> is a
  parameter: its default sort is not stable, so the order it gives to equal
  probabilities is not fixed by the source. \<open>is_argsort\<close> says what every argsort
  returns on floats that are linearly ordered (no NaN), and \<open>stable_argsort\<close> is the one
  that keeps equal elements in index order.

  \<^verbatim>\<open>numpy.delete\<close> is called without an axis, so it deletes positions of the flattened
  array and raises \<^verbatim>\<open>IndexError\<close> for a position beyond it. The arrays of keys and of
  probabilities are one-dimensional. The array of payloads is one-dimensional when the
  payloads are scalars (strings, numbers, records) and two-dimensional when they are
  sequences of one length; \<open>ravel\<close> is its flattening, the identity in the first case and
  the concatenation of the rows in the second, after which the array holds the
  elements of the rows and is one-dimensional.

  The loop state is
  \<^verbatim>\<open>(posterior_features, posterior_probability, self.probabilities, cull_indices)\<close>; the
  running probability is added up in floats, in the order of the visits.
\<close>

definition is_argsort :: "'f::linorder list \<Rightarrow> nat list \<Rightarrow> bool" where
  "is_argsort xs idx = (mset idx = mset [0..<length xs] \<and> sorted (map (nth xs) idx))"

definition stable_argsort :: "'f::linorder list \<Rightarrow> nat list" where
  "stable_argsort xs = sort_key (nth xs) [0..<length xs]"

definition numpy_delete :: "'a list \<Rightarrow> nat list \<Rightarrow> error + 'a list" where
  "numpy_delete flat obj =
     (if list_all (\<lambda>i. i < length flat) obj
      then Inr (map (nth flat) (filter (\<lambda>i. i \<notin> set obj) [0..<length flat]))
      else Inl IndexError)"

type_synonym ('k, 'f) cull_state = "int \<times> 'f \<times> ('k \<rightharpoonup> 'f) \<times> nat list"

definition cull_step ::
  "('k, 'd, 'f::{ord,plus}) table \<Rightarrow> int \<Rightarrow> 'f \<Rightarrow> nat \<Rightarrow> ('k, 'f) cull_state \<Rightarrow>
   error + ('k, 'f) cull_state" where
  "cull_step self max_features max_probability i st =
     (case st of (posterior_features, posterior_probability, own, cull_indices) \<Rightarrow>
        (case (if posterior_features \<ge> max_features \<or> posterior_probability \<ge> max_probability
               then (if i < length (hashes_array self)
                     then (let cull_hash = hashes_array self ! i in
                           (case own cull_hash of
                              None \<Rightarrow> Inl KeyError
                            | Some p \<Rightarrow> Inr (own(cull_hash := None), cull_indices @ [i])))
                     else Inl IndexError)
               else Inr (own, cull_indices)) of
           Inl e \<Rightarrow> Inl e
         | Inr (own', cull_indices') \<Rightarrow>
             if i < length (probabilities_array self)
             then Inr (posterior_features + 1,
                       posterior_probability + probabilities_array self ! i,
                       own', cull_indices')
             else Inl IndexError))"

definition cull_probabilities ::
  "('f list \<Rightarrow> nat list) \<Rightarrow> ('d list \<Rightarrow> 'e list) \<Rightarrow> ('k, 'd, 'f::{ord,plus,zero}) table \<Rightarrow>
   int \<Rightarrow> 'f \<Rightarrow> error + ('k, 'e, 'f) table" where
  "cull_probabilities argsort ravel self max_features max_probability =
     (let topology_ascending_order = argsort (probabilities_array self);
          topology_descending_order = rev topology_ascending_order
      in case for_each (cull_step self max_features max_probability) topology_descending_order
                (0, 0, probabilities self, []) of
           Inl e \<Rightarrow> Inl e
         | Inr (posterior_features, posterior_probability, own, cull_indices) \<Rightarrow>
             (case numpy_delete (probabilities_array self) cull_indices of
                Inl e \<Rightarrow> Inl e
              | Inr probabilities_array' \<Rightarrow>
             (case numpy_delete (hashes_array self) cull_indices of
                Inl e \<Rightarrow> Inl e
              | Inr hashes_array' \<Rightarrow>
             (case numpy_delete (ravel (data_array self)) cull_indices of
                Inl e \<Rightarrow> Inl e
              | Inr data_array' \<Rightarrow>
                  Inr \<lparr>n_features = length probabilities_array',
                       hashes_array = hashes_array',
                       data_array = data_array',
                       probabilities = own,
                       probabilities_array = probabilities_array'\<rparr>))))"

subsection \<open>Notions used to state the table properties\<close>

text \<open>
  \<open>table_ok\<close> is the class invariant every method keeps: distinct keys, one payload and
  one stored probability per key, and the array of probabilities in step with the
  dict. For the culling walk, \<open>running_probability\<close> is the probability added up, as the
  loop adds it, before the \<open>k\<close>-th visit, and \<open>removed_at\<close> the test made at that visit;
  the running count before the \<open>k\<close>-th visit is \<open>k\<close> itself.
\<close>

definition table_ok :: "('k, 'd, 'f) table \<Rightarrow> bool" where
  "table_ok self =
     (distinct (hashes_array self) \<and>
      n_features self = length (hashes_array self) \<and>
      length (data_array self) = length (hashes_array self) \<and>
      dom (probabilities self) = set (hashes_array self) \<and>
      probabilities_array self = map (\<lambda>h. the (probabilities self h)) (hashes_array self))"

definition running_probability :: "'f::{plus,zero} list \<Rightarrow> nat list \<Rightarrow> nat \<Rightarrow> 'f" where
  "running_probability ps visit k = foldl (+) 0 (map (nth ps) (take k visit))"

definition removed_at :: "'f::{ord,plus,zero} list \<Rightarrow> nat list \<Rightarrow> int \<Rightarrow> 'f \<Rightarrow> nat \<Rightarrow> bool" where
  "removed_at ps visit max_features max_probability k =
     (max_features \<le> int k \<or> max_probability \<le> running_probability ps visit k)"

definition culled_indices :: "'f::{ord,plus,zero} list \<Rightarrow> nat list \<Rightarrow> int \<Rightarrow> 'f \<Rightarrow> nat list" where
  "culled_indices ps visit max_features max_probability =
     map (nth visit) (filter (removed_at ps visit max_features max_probability) [0..<length visit])"

definition kept_indices :: "'f::{ord,plus,zero} list \<Rightarrow> nat list \<Rightarrow> int \<Rightarrow> 'f \<Rightarrow> nat list" where
  "kept_indices ps visit max_features max_probability =
     filter (\<lambda>i. i \<notin> set (culled_indices ps visit max_features max_probability)) [0..<length ps]"

definition culled_upto :: "'f::{ord,plus,zero} list \<Rightarrow> nat list \<Rightarrow> int \<Rightarrow> 'f \<Rightarrow> nat \<Rightarrow> nat list" where
  "culled_upto ps visit mf mp k = map (nth visit) (filter (removed_at ps visit mf mp) [0..<k])"

definition without_keys :: "('k \<rightharpoonup> 'f) \<Rightarrow> 'k set \<Rightarrow> ('k \<rightharpoonup> 'f)" where
  "without_keys m ks = (\<lambda>k. if k \<in> ks then None else m k)"

text \<open>
  Tables used in the examples. Their probabilities are sums of powers of two, on which
  the 64-bit floats of the program and the real numbers compute the same.
\<close>

definition two_key_table :: "(bytes, string, real) table" where
  "two_key_table =
     \<lparr>n_features = 2, hashes_array = [[0xA0], [0xC0]], data_array = [''x'', ''y''],
      probabilities = [[0xA0] \<mapsto> 1/2, [0xC0] \<mapsto> 1/2], probabilities_array = [1/2, 1/2]\<rparr>"



section \<open>Topologies and the conditional clade model\<close>

text \<open>
  The tree library is outside the repository. A tree node has a name and a list of
  children, a leaf being a node without children; \<^verbatim>\<open>ete2.Tree(newick)\<close> is a parameter
  \<open>ete2_Tree\<close> of the functions that parse. Unpacking \<^verbatim>\<open>child1, child2 = node.get_children()\<close>
  raises \<^verbatim>\<open>ValueError\<close> unless there are two children.
\<close>

datatype 'a tree = Tree 'a "'a tree list"

fun get_leaf_names :: "'a tree \<Rightarrow> 'a list" where
  "get_leaf_names (Tree nm []) = [nm]"
| "get_leaf_names (Tree nm (c # cs)) = concat (map get_leaf_names (c # cs))"

text \<open>\<^verbatim>\<open>TopologySample.recurse_node_properties(node, topology_values)\<close>.\<close>

fun recurse_node_properties ::
  "'a list \<Rightarrow> 'a tree \<Rightarrow> (bytes \<times> bytes) list \<Rightarrow> error + (bytes \<times> bytes) list" where
  "recurse_node_properties taxon_order (Tree nm []) topology_values = Inr topology_values"
| "recurse_node_properties taxon_order (Tree nm [child1, child2]) topology_values =
     (let child1_clade = set (get_leaf_names child1);
          child2_clade = set (get_leaf_names child2)
      in case recurse_node_properties taxon_order child1 topology_values of
           Inl e \<Rightarrow> Inl e
         | Inr values1 \<Rightarrow>
        (case recurse_node_properties taxon_order child2 values1 of
           Inl e \<Rightarrow> Inl e
         | Inr values2 \<Rightarrow>
        (case calculate_node_hashes child1_clade child2_clade taxon_order of
           Inl e \<Rightarrow> Inl e
         | Inr (parent_id, split_id) \<Rightarrow> Inr (values2 @ [(parent_id, split_id)]))))"
| "recurse_node_properties taxon_order (Tree nm cs) topology_values = Inl ValueError"

text \<open>
  A \<^verbatim>\<open>numpy\<close> field of type \<^verbatim>\<open>a%d\<close> holds that number of bytes: a shorter string is padded with zero
  bytes and a longer one cut; reading an element back gives the string without its
  trailing zero bytes. Sorting a structured array is lexicographic on the stored
  fields.
\<close>

definition numpy_store :: "nat \<Rightarrow> bytes \<Rightarrow> bytes" where
  "numpy_store width s = take width (s @ replicate width 0)"

definition numpy_load :: "bytes \<Rightarrow> bytes" where
  "numpy_load s = rstrip0 s"

text \<open>\<^verbatim>\<open>TopologySample.generate_topology_array(newick_string)\<close>, on the parsed tree.\<close>

definition generate_topology_array ::
  "'a list \<Rightarrow> 'a tree \<Rightarrow> error + (bytes \<times> bytes) list" where
  "generate_topology_array taxon_order topology_root =
     (let n_taxa = length taxon_order;
          id_bytes = n_taxa div 8;
          id_remainder = n_taxa mod 8;
          id_size = (if id_remainder = 0 then id_bytes else id_bytes + 1)
      in case recurse_node_properties taxon_order topology_root [] of
           Inl e \<Rightarrow> Inl e
         | Inr topology_values \<Rightarrow>
             Inr (sort (map (\<lambda>(parent_id, split_id).
                               (numpy_store id_size parent_id, numpy_store id_size split_id))
                          topology_values)))"

text \<open>
  \<^verbatim>\<open>TopologySample.__init__(newick_strings)\<close>. The result is the pair of the attributes
  \<^verbatim>\<open>taxon_order\<close> and \<^verbatim>\<open>topology_arrays\<close>, which is also the state of the loop.
\<close>

definition topology_sample_step ::
  "('d \<Rightarrow> 'a::linorder tree) \<Rightarrow> 'd list \<Rightarrow> nat \<Rightarrow>
   'a list \<times> (bytes \<times> bytes) list list \<Rightarrow> error + 'a list \<times> (bytes \<times> bytes) list list" where
  "topology_sample_step ete2_Tree newick_strings i st =
     (case st of (taxon_order, topology_arrays) \<Rightarrow>
        (let ns = newick_strings ! i;
             tree = ete2_Tree ns;
             taxon_order' = (if i = 0 then sort (get_leaf_names tree) else taxon_order)
         in (case generate_topology_array taxon_order' (ete2_Tree ns) of
               Inl e \<Rightarrow> Inl e
             | Inr topology_array \<Rightarrow> Inr (taxon_order', topology_arrays @ [topology_array]))))"

definition TopologySample ::
  "('d \<Rightarrow> 'a::linorder tree) \<Rightarrow> 'd list \<Rightarrow> error + 'a list \<times> (bytes \<times> bytes) list list" where
  "TopologySample ete2_Tree newick_strings =
     for_each (topology_sample_step ete2_Tree newick_strings) [0..<length newick_strings] ([], [])"

text \<open>
  \<^verbatim>\<open>TopologyProbabilities.probabilities_from_ccs(self, cc_sets)\<close>. The conditional clade
  model \<^verbatim>\<open>cc_sets\<close> is the list of the items of the dict, clade identifier and table of
  splits; \<^verbatim>\<open>cc_sets[parent_hash]\<close> is a lookup in it.
  The probabilities of this part are real numbers, and \<^verbatim>\<open>numpy.prod\<close> is their product.
\<close>

type_synonym 'd cc_model = "(bytes \<times> (bytes, 'd, real) table) list"

definition node_probability_step ::
  "'d cc_model \<Rightarrow> bytes \<times> bytes \<Rightarrow> real list \<Rightarrow> error + real list" where
  "node_probability_step cc_sets node node_probabilities =
     (let parent_hash = numpy_load (fst node);
          split_hash = numpy_load (snd node);
          n_node_taxa = clade_size parent_hash
      in if n_node_taxa \<ge> 3 then
           (case map_of cc_sets parent_hash of
              None \<Rightarrow> Inl KeyError
            | Some splits \<Rightarrow>
                (case probabilities splits split_hash of
                   None \<Rightarrow> Inl KeyError
                 | Some split_probability \<Rightarrow> Inr (node_probabilities @ [split_probability])))
         else Inr node_probabilities)"

definition topology_probability_step ::
  "('k, 'd, real) table \<Rightarrow> (bytes \<times> bytes) list list \<Rightarrow> 'e cc_model \<Rightarrow> nat \<Rightarrow>
   ('k \<rightharpoonup> real) \<Rightarrow> error + ('k \<rightharpoonup> real)" where
  "topology_probability_step self topology_arrays cc_sets i own =
     (if i < length topology_arrays \<and> i < length (hashes_array self) then
        (let topology_array = topology_arrays ! i;
             topology_hash = hashes_array self ! i
         in (case for_each (node_probability_step cc_sets) topology_array [] of
               Inl e \<Rightarrow> Inl e
             | Inr node_probabilities \<Rightarrow>
                 Inr (own(topology_hash \<mapsto> prod_list node_probabilities))))
      else Inl IndexError)"

definition probabilities_from_ccs ::
  "('d \<Rightarrow> 'a::linorder tree) \<Rightarrow> ('k, 'd, real) table \<Rightarrow> 'e cc_model \<Rightarrow> error + ('k, 'd, real) table" where
  "probabilities_from_ccs ete2_Tree self cc_sets =
     (case TopologySample ete2_Tree (data_array self) of
        Inl e \<Rightarrow> Inl e
      | Inr (taxon_order, topology_arrays) \<Rightarrow>
          (case for_each (topology_probability_step self topology_arrays cc_sets)
                  [0..<n_features self] (probabilities self) of
             Inl e \<Rightarrow> Inl e
           | Inr own \<Rightarrow> convert_probabilities (self\<lparr>probabilities := own\<rparr>)))"

subsection \<open>Notions used to state the model properties\<close>

text \<open>
  \<open>modeled_records\<close> are the records of a topology array as the loop reads them, for the
  clades of three taxa or more; \<open>split_known\<close> says that the model has the clade of a
  record and that the clade's table has the split, and \<open>split_probability\<close> is the
  probability stored there.
\<close>

definition modeled_records :: "(bytes \<times> bytes) list \<Rightarrow> (bytes \<times> bytes) list" where
  "modeled_records topology_array =
     filter (\<lambda>node. 3 \<le> clade_size (fst node))
       (map (\<lambda>node. (numpy_load (fst node), numpy_load (snd node))) topology_array)"

definition split_known :: "'d cc_model \<Rightarrow> bytes \<times> bytes \<Rightarrow> bool" where
  "split_known cc_sets node =
     (case map_of cc_sets (fst node) of
        None \<Rightarrow> False
      | Some splits \<Rightarrow> probabilities splits (snd node) \<noteq> None)"

definition split_probability :: "'d cc_model \<Rightarrow> bytes \<times> bytes \<Rightarrow> real" where
  "split_probability cc_sets node =
     (case map_of cc_sets (fst node) of
        None \<Rightarrow> 0
      | Some splits \<Rightarrow> (case probabilities splits (snd node) of None \<Rightarrow> 0 | Some p \<Rightarrow> p))"

definition topology_known :: "'d cc_model \<Rightarrow> (bytes \<times> bytes) list \<Rightarrow> bool" where
  "topology_known cc_sets topology_array = list_all (split_known cc_sets) (modeled_records topology_array)"

definition topology_probability :: "'d cc_model \<Rightarrow> (bytes \<times> bytes) list \<Rightarrow> real" where
  "topology_probability cc_sets topology_array =
     prod_list (map (split_probability cc_sets) (modeled_records topology_array))"

text \<open>
  A sample over the taxa A, B, C used in the examples: the topologies ((A,C),B) and
  ((A,B),C), the table of the two topologies keyed by their fingerprints, and the
  table of the two splits of the root clade.
\<close>

definition acb_tree :: "string tree" where
  "acb_tree = Tree '''' [Tree '''' [Tree ''A'' [], Tree ''C'' []], Tree ''B'' []]"

definition abc_tree :: "string tree" where
  "abc_tree = Tree '''' [Tree '''' [Tree ''A'' [], Tree ''B'' []], Tree ''C'' []]"

definition topology_table :: "(bytes, string tree, real) table" where
  "topology_table =
     \<lparr>n_features = 2, hashes_array = [[0xA0, 0xE0], [0xC0, 0xE0]],
      data_array = [acb_tree, abc_tree],
      probabilities = [[0xA0, 0xE0] \<mapsto> 0, [0xC0, 0xE0] \<mapsto> 0],
      probabilities_array = [0, 0]\<rparr>"

definition root_splits :: "(bytes, unit, real) table" where
  "root_splits =
     \<lparr>n_features = 2, hashes_array = [[0xA0], [0xC0]], data_array = [(), ()],
      probabilities = [[0xA0] \<mapsto> 1/3, [0xC0] \<mapsto> 2/3],
      probabilities_array = [1/3, 2/3]\<rparr>"

definition root_one_split :: "(bytes, unit, real) table" where
  "root_one_split =
     \<lparr>n_features = 1, hashes_array = [[0xC0]], data_array = [()],
      probabilities = [[0xC0] \<mapsto> 1],
      probabilities_array = [1]\<rparr>"

section \<open>Counting the topologies of a conditional clade model\<close>

text \<open>
  \<^verbatim>\<open>n_derived_topologies(cc_sets, n_taxa, include_zero_probability)\<close>. The dict \<^verbatim>\<open>cc_sets\<close> is
  the list of its items in the order in which the dict is iterated. A Python \<^verbatim>\<open>set\<close> is
  the list of its elements without duplicates; the order in which a \<^verbatim>\<open>for\<close> loop visits
  them is not fixed by the language, so it is a parameter, \<open>set_iter\<close>. The counts are
  Python integers, and the only operation on the float probability of a split is its
  comparison with zero. The first statement calls \<^verbatim>\<open>reverse_cc_probabilities\<close>, which
  raises nothing on a model whose tables are as their constructor leaves them and
  whose result is not used here; it is left out.

  The loop is in three parts: the buckets \<^verbatim>\<open>clades_by_size\<close>, the table \<^verbatim>\<open>n_subtrees\<close>, and
  the lookup of the root.
\<close>

definition set_add :: "'a \<Rightarrow> 'a list \<Rightarrow> 'a list" where
  "set_add x xs = (if x \<in> set xs then xs else xs @ [x])"









subsection \<open>Notions used to state the count\<close>








section \<open>Properties of the codec\<close>

lemma length_unpack8 [simp]: "length (unpack8 w) = 8"
  by (simp add: unpack8_def)

lemma unpack8_pack8: 
  assumes "length bs = 8" shows "unpack8 (pack8 bs) = bs"
proof -
  from assms obtain a b c d e f g h where "bs = [a, b, c, d, e, f, g, h]"
    by (auto simp: eval_nat_numeral length_Suc_conv)
  then show ?thesis
    by (simp add: unpack8_def pack8_def bit_horner_sum_bit_word_iff eval_nat_numeral)
qed

lemma unpack8_zero: "unpack8 0 = replicate 8 False"
  by (simp add: unpack8_def eval_nat_numeral)

lemma unpackbits_packbits:
  "unpackbits (packbits bs) = bs @ replicate ((8 - length bs mod 8) mod 8) False"
proof (induction bs rule: packbits.induct)
  case (1 bs)
  show ?case
  proof (cases "bs = []")
    case True
    then show ?thesis by (simp add: packbits.simps unpackbits_def)
  next
    case False
    have "length (take 8 (bs @ replicate 7 False)) = 8"
      using False by (cases bs) auto
    then have step: "unpackbits (packbits bs) = take 8 (bs @ replicate 7 False) @ unpackbits (packbits (drop 8 bs))"
      using False by (subst packbits.simps) (simp add: unpackbits_def unpack8_pack8 del: take_append length_take)
    show ?thesis
    proof (cases "length bs < 8")
      case True
      then have "drop 8 bs = []" by simp
      moreover have "min (8 - length bs) 7 = 8 - length bs" using False by (cases bs) auto
      ultimately show ?thesis using step True
        by (simp add: packbits.simps unpackbits_def)
    next
      case ge: False
      then have "length (drop 8 bs) mod 8 = length bs mod 8"
        by (simp add: le_mod_geq)
      with step 1[OF False] ge show ?thesis
        by simp
    qed
  qed
qed




lemma rank_Suc: "i < length bs \<Longrightarrow> rank bs (Suc i) = (if bs ! i then Suc (rank bs i) else rank bs i)"
  by (simp add: rank_def take_Suc_conv_app_nth)

lemma update_map_replicate:
  "k < n \<Longrightarrow> (map f [0..<k] @ replicate (n - k) False)[k := v] = map f [0..<k] @ v # replicate (n - Suc k) False"
  by (cases "n - k") (auto simp: list_update_append Suc_diff_Suc)

lemma keep_map_replicate:
  "k < n \<Longrightarrow> map f [0..<k] @ replicate (n - k) False = map f [0..<k] @ False # replicate (n - Suc k) False"
  by (cases "n - k") (auto simp: Suc_diff_Suc)

lemma elucidate_loop:
  "k \<le> length P \<Longrightarrow>
   fold (elucidate_step P S) [0..<k] (0, replicate (length P) False, replicate (length P) False) =
     (rank P k,
      map (\<lambda>i. P ! i \<and> bit_at S (rank P i)) [0..<k] @ replicate (length P - k) False,
      map (\<lambda>i. P ! i \<and> \<not> bit_at S (rank P i)) [0..<k] @ replicate (length P - k) False)"
proof (induction k)
  case 0
  then show ?case by (simp add: rank_def)
next
  case (Suc k)
  then have k: "k < length P" by simp
  show ?case
    using Suc.IH k
    by (simp add: elucidate_step_def rank_Suc update_map_replicate bit_at_def
        keep_map_replicate [symmetric])
qed


lemma elucidate_cc_split_eq:
  "elucidate_cc_split p s =
     (rstrip0 (packbits (map (\<lambda>i. unpackbits p ! i \<and> bit_at (unpackbits s) (rank (unpackbits p) i))
                 [0..<length (unpackbits p)])),
      rstrip0 (packbits (map (\<lambda>i. unpackbits p ! i \<and> \<not> bit_at (unpackbits s) (rank (unpackbits p) i))
                 [0..<length (unpackbits p)])))"
  by (simp add: elucidate_cc_split_def Let_def elucidate_loop)

lemma bit_at_append_False [simp]: "bit_at (bs @ replicate k False) i = bit_at bs i"
  by (auto simp: bit_at_def nth_append)

lemma bit_at_unpack_pack [simp]: "bit_at (unpackbits (packbits bs)) i = bit_at bs i"
  by (simp add: unpackbits_packbits)

lemma rstrip0_decomp: "\<exists>m. s = rstrip0 s @ replicate m 0"
proof -
  let ?z = "takeWhile (\<lambda>b. b = 0) (rev s)"
  have "s = rev (?z @ dropWhile (\<lambda>b. b = 0) (rev s))"
    by (simp only: takeWhile_dropWhile_id rev_rev_ident)
  also have "\<dots> = rstrip0 s @ rev ?z"
    by (simp only: rev_append rstrip0_def)
  finally have "s = rstrip0 s @ rev ?z" .
  moreover have "?z = replicate (length ?z) 0"
    by (rule replicate_length_same [symmetric]) (auto dest: set_takeWhileD)
  ultimately have "s = rstrip0 s @ replicate (length ?z) 0"
    by (metis rev_replicate)
  then show ?thesis ..
qed

lemma unpackbits_zeros: "unpackbits (replicate m 0) = replicate (8 * m) False"
  by (induction m) (simp_all add: unpackbits_def unpack8_zero replicate_add)

lemma unpackbits_append: "unpackbits (a @ b) = unpackbits a @ unpackbits b"
  by (simp add: unpackbits_def)

lemma bit_at_rstrip0 [simp]: "bit_at (unpackbits (rstrip0 s)) i = bit_at (unpackbits s) i"
proof -
  obtain m where "s = rstrip0 s @ replicate m 0" using rstrip0_decomp by blast
  then have "unpackbits s = unpackbits (rstrip0 s) @ replicate (8 * m) False"
    by (metis unpackbits_append unpackbits_zeros)
  then show ?thesis by simp
qed

lemma rstrip0_idem [simp]: "rstrip0 (rstrip0 s) = rstrip0 s"
  by (simp add: rstrip0_def)

lemma bit_at_map_upt [simp]: "bit_at (map f [0..<n]) i = (i < n \<and> f i)"
  by (auto simp: bit_at_def)


lemma clade_positions_iff: "i \<in> clade_positions c \<longleftrightarrow> bit_at (unpackbits c) i"
  by (auto simp: clade_positions_def bit_at_def)

text \<open>
  Claim C10. For every parent identifier and every split identifier, the two children
  returned by \<open>elucidate_cc_split\<close> denote disjoint taxon sets whose union is the
  parent's taxon set, and neither child identifier ends in a zero byte. The statement
  holds for every parent, so in particular for one with a set bit.
\<close>

theorem elucidate_cc_split_partition:
  "(case elucidate_cc_split parent_id split_id of (child1_id, child2_id) \<Rightarrow>
      clade_positions child1_id \<inter> clade_positions child2_id = {} \<and>
      clade_positions child1_id \<union> clade_positions child2_id = clade_positions parent_id \<and>
      rstrip0 child1_id = child1_id \<and> rstrip0 child2_id = child2_id)"
  by (auto simp: elucidate_cc_split_eq clade_positions_iff) (auto simp: bit_at_def)


lemma for_each_append:
  "for_each f (xs @ ys) s = (case for_each f xs s of Inl e \<Rightarrow> Inl e | Inr s' \<Rightarrow> for_each f ys s')"
  by (induction xs arbitrary: s) (auto split: sum.splits)

lemma update_append_replicate:
  "length xs = k \<Longrightarrow> k < n \<Longrightarrow>
   (xs @ replicate (n - k) False)[k := v] = xs @ v # replicate (n - Suc k) False"
  by (cases "n - k") (auto simp: list_update_append Suc_diff_Suc)

lemma keep_append_replicate:
  "k < n \<Longrightarrow> xs @ replicate (n - k) False = xs @ False # replicate (n - Suc k) False"
  by (cases "n - k") (auto simp: Suc_diff_Suc)





lemma node_hash_step_inv:
  assumes k: "k < length order"
  shows "node_hash_step A B order k (hash_inv A B order k) = Inr (hash_inv A B order (Suc k))"
proof -
  let ?M = "members A B (take k order)"
  let ?t = "order ! k"
  let ?n = "length order"
  have "length ?M \<le> length (take k order)"
    unfolding members_def by (rule length_filter_le)
  then have lenM: "length ?M < ?n" using k by simp
  have take: "take (Suc k) order = take k order @ [?t]"
    using k by (simp add: take_Suc_conv_app_nth)
  have parent_keep: "map (\<lambda>t. t \<in> A \<union> B) (take k order) @ replicate (?n - k) False =
      map (\<lambda>t. t \<in> A \<union> B) (take k order) @ False # replicate (?n - Suc k) False"
    using k by (rule keep_append_replicate)
  have parent_upd: "(map (\<lambda>t. t \<in> A \<union> B) (take k order) @ replicate (?n - k) False)[k := True] =
      map (\<lambda>t. t \<in> A \<union> B) (take k order) @ True # replicate (?n - Suc k) False"
    using k by (intro update_append_replicate) simp_all
  have split_keep: "xs @ replicate (?n - length ?M) False =
      xs @ False # replicate (?n - Suc (length ?M)) False" for xs
    using lenM by (rule keep_append_replicate)
  have split_upd: "length xs = length ?M \<Longrightarrow> (xs @ replicate (?n - length ?M) False)[length ?M := True] =
      xs @ True # replicate (?n - Suc (length ?M)) False" for xs
    using lenM by (intro update_append_replicate) simp_all
  show ?thesis
  proof (cases "?t \<in> A \<union> B")
    case False
    then have "members A B (take (Suc k) order) = ?M"
      by (simp add: take members_def)
    then show ?thesis
      using False parent_keep
      by (simp add: node_hash_step_def hash_inv_def Let_def take)
  next
    case True
    then have M': "members A B (take (Suc k) order) = ?M @ [?t]"
      by (simp add: take members_def)
    have parent': "map (\<lambda>t. t \<in> A \<union> B) (take (Suc k) order) = map (\<lambda>t. t \<in> A \<union> B) (take k order) @ [True]"
      using True by (simp add: take)
    show ?thesis
    proof (cases ?M)
      case Nil
      have "(replicate ?n False)[0 := True] = True # replicate (?n - Suc 0) False"
        using k by (cases ?n) auto
      moreover have "replicate ?n False = False # replicate (?n - Suc 0) False"
        using k by (cases ?n) auto
      ultimately show ?thesis
        using True Nil parent_upd parent'
        by (simp add: node_hash_step_def hash_inv_def Let_def M' split_mark_def)
    next
      case (Cons m ms)
      have marks: "map (split_mark A B (?M @ [?t])) (?M @ [?t]) =
                   map (split_mark A B ?M) ?M @ [(?t \<in> B) \<noteq> (m \<in> A)]"
        using Cons by (simp add: split_mark_def)
      have hd': "(case ?M @ [?t] of [] \<Rightarrow> None | t # _ \<Rightarrow> Some (t \<in> A)) = Some (m \<in> A)"
        using Cons by simp
      have hd0: "(case ?M of [] \<Rightarrow> None | t # _ \<Rightarrow> Some (t \<in> A)) = Some (m \<in> A)"
        using Cons by simp
      have ne: "length ?M \<noteq> 0" using Cons by simp
      show ?thesis
        unfolding node_hash_step_def hash_inv_def Let_def M' parent' marks hd' hd0
        using True ne parent_upd split_upd [of "map (split_mark A B ?M) ?M"]
          split_keep [of "map (split_mark A B ?M) ?M"]
        by (simp del: replicate_Suc)
    qed
  qed
qed

lemma node_hash_loop:
  "k \<le> length order \<Longrightarrow>
   for_each (node_hash_step A B order) [0..<k]
     (0, None, replicate (length order) False, replicate (length order) False) =
   Inr (hash_inv A B order k)"
proof (induction k)
  case 0
  then show ?case by (simp add: hash_inv_def members_def)
next
  case (Suc k)
  then show ?case
    by (simp add: for_each_append node_hash_step_inv)
qed

lemma calculate_node_hashes_eq:
  "calculate_node_hashes A B order =
     Inr (packbits (map (\<lambda>t. t \<in> A \<union> B) order),
          packbits (map (split_mark A B (members A B order)) (members A B order)
             @ replicate (length order - length (members A B order)) False))"
  by (simp add: calculate_node_hashes_def node_hash_loop hash_inv_def Let_def)


lemma filter_upt_bound:
  assumes "\<And>i. P i \<Longrightarrow> i < m"
  shows "filter P [0..<n] = filter P [0..<min m n]"
proof (cases "n \<le> m")
  case True
  then show ?thesis by (simp add: min_def)
next
  case False
  then have "[0..<n] = [0..<m] @ [m..<n]"
    by (metis le_add_diff_inverse nat_le_linear upt_add_eq_append zero_le)
  moreover have "filter P [m..<n] = []"
    using assms by (fastforce simp: filter_empty_conv)
  ultimately show ?thesis using False by (simp add: min_def)
qed

lemma taxon_names_loop:
  assumes "\<And>i. bit_at bits i \<Longrightarrow> i < length order"
  shows "k \<le> length bits \<Longrightarrow>
    for_each (taxon_names_step bits order) [0..<k] [] =
      Inr (map (nth order) (filter (bit_at bits) [0..<k]))"
proof (induction k)
  case 0
  then show ?case by simp
next
  case (Suc k)
  then have "k < length bits" by simp
  then have "bit_at bits k = bits ! k" by (simp add: bit_at_def)
  with Suc assms [of k] show ?case
    by (auto simp: for_each_append taxon_names_step_def)
qed

lemma clade_taxon_names_eq:
  assumes "\<And>i. bit_at (unpackbits c) i \<Longrightarrow> i < length order"
  shows "clade_taxon_names c order =
           Inr (map (nth order) (filter (bit_at (unpackbits c)) [0..<length order]))"
proof -
  let ?bits = "unpackbits c"
  have "filter (bit_at ?bits) [0..<length ?bits] = filter (bit_at ?bits) [0..<min (length order) (length ?bits)]"
    using assms by (rule filter_upt_bound)
  moreover have "filter (bit_at ?bits) [0..<length order] = filter (bit_at ?bits) [0..<min (length ?bits) (length order)]"
    by (rule filter_upt_bound) (simp add: bit_at_def)
  ultimately show ?thesis
    using taxon_names_loop [of ?bits order "length ?bits"] assms
    by (simp add: clade_taxon_names_def Let_def min.commute)
qed

lemma map_nth_filter: "map (nth xs) (filter (\<lambda>i. Q (xs ! i)) [0..<length xs]) = filter Q xs"
proof -
  have "filter Q (map (nth xs) [0..<length xs]) = map (nth xs) (filter (Q \<circ> nth xs) [0..<length xs])"
    by (rule filter_map)
  then show ?thesis by (simp add: map_nth comp_def)
qed

lemma filter_nth_rank:
  assumes "i < length xs" "Q (xs ! i)"
  shows "filter Q xs ! length (filter Q (take i xs)) = xs ! i"
    and "length (filter Q (take i xs)) < length (filter Q xs)"
proof -
  have "xs = take i xs @ xs ! i # drop (Suc i) xs"
    using assms(1) by (simp add: id_take_nth_drop)
  then have "filter Q xs = filter Q (take i xs) @ xs ! i # filter Q (drop (Suc i) xs)"
    using assms(2) by (metis filter.simps(2) filter_append)
  then show "filter Q xs ! length (filter Q (take i xs)) = xs ! i"
    and "length (filter Q (take i xs)) < length (filter Q xs)"
    by (simp_all add: nth_append)
qed

lemma rank_map: "i \<le> length xs \<Longrightarrow> rank (map Q xs @ ps) i = length (filter Q (take i xs))"
  by (simp add: rank_def take_map comp_def)


lemma bit_at_map [simp]: "bit_at (map Q xs) i = (i < length xs \<and> Q (xs ! i))"
  by (auto simp: bit_at_def)

lemma bit_at_child:
  "bit_at (unpackbits (rstrip0 (packbits (map (\<lambda>i. P ! i \<and> R i) [0..<length P])))) i =
     (bit_at P i \<and> R i)"
  by simp (auto simp: bit_at_def)

lemma decode_bit:
  assumes bits: "\<And>j. bit_at (unpackbits s') j =
              (j < length (members A B order) \<and> split_mark A B (members A B order) (members A B order ! j))"
    and i: "i < length order"
  shows "(bit_at (unpackbits (packbits (map (\<lambda>t. t \<in> A \<union> B) order))) i \<and>
          bit_at (unpackbits s') (rank (unpackbits (packbits (map (\<lambda>t. t \<in> A \<union> B) order))) i)) =
         (order ! i \<in> A \<union> B \<and> split_mark A B (members A B order) (order ! i))"
proof (cases "order ! i \<in> A \<union> B")
  case False
  with i show ?thesis by simp
next
  case True
  have r: "rank (unpackbits (packbits (map (\<lambda>t. t \<in> A \<union> B) order))) i =
           length (filter (\<lambda>t. t \<in> A \<union> B) (take i order))"
    using i by (simp only: unpackbits_packbits rank_map less_imp_le)
  from filter_nth_rank [of i order "\<lambda>t. t \<in> A \<union> B", OF i True]
  show ?thesis using i True
    by (simp only: r bits members_def bit_at_unpack_pack bit_at_map) simp
qed

lemma decode_names:
  assumes bits: "\<And>j. bit_at (unpackbits s') j =
              (j < length (members A B order) \<and> split_mark A B (members A B order) (members A B order ! j))"
  shows "elucidate_cc_split (packbits (map (\<lambda>t. t \<in> A \<union> B) order)) s' =
          (c1, c2) \<Longrightarrow>
     clade_taxon_names c1 order =
       Inr (filter (\<lambda>t. t \<in> A \<union> B \<and> split_mark A B (members A B order) t) order) \<and>
     clade_taxon_names c2 order =
       Inr (filter (\<lambda>t. t \<in> A \<union> B \<and> \<not> split_mark A B (members A B order) t) order)"
proof -
  let ?p = "packbits (map (\<lambda>t. t \<in> A \<union> B) order)"
  let ?P = "unpackbits ?p"
  let ?S = "unpackbits s'"
  let ?M = "members A B order"
  assume "elucidate_cc_split ?p s' = (c1, c2)"
  then have c1: "c1 = rstrip0 (packbits (map (\<lambda>i. ?P ! i \<and> bit_at ?S (rank ?P i)) [0..<length ?P]))"
    and c2: "c2 = rstrip0 (packbits (map (\<lambda>i. ?P ! i \<and> \<not> bit_at ?S (rank ?P i)) [0..<length ?P]))"
    by (simp_all add: elucidate_cc_split_eq)
  have b1: "bit_at (unpackbits c1) i = (bit_at ?P i \<and> bit_at ?S (rank ?P i))" for i
    unfolding c1 by (rule bit_at_child)
  have b2: "bit_at (unpackbits c2) i = (bit_at ?P i \<and> \<not> bit_at ?S (rank ?P i))" for i
    unfolding c2 by (rule bit_at_child)
  have inrange: "bit_at ?P i \<Longrightarrow> i < length order" for i
    by simp
  have n1: "clade_taxon_names c1 order = Inr (map (nth order) (filter (bit_at (unpackbits c1)) [0..<length order]))"
    by (rule clade_taxon_names_eq) (simp only: b1 inrange)
  have n2: "clade_taxon_names c2 order = Inr (map (nth order) (filter (bit_at (unpackbits c2)) [0..<length order]))"
    by (rule clade_taxon_names_eq) (simp only: b2 inrange)
  have f1: "filter (bit_at (unpackbits c1)) [0..<length order] =
            filter (\<lambda>i. order ! i \<in> A \<union> B \<and> split_mark A B ?M (order ! i)) [0..<length order]"
    by (rule filter_cong [OF refl]) (simp only: b1 decode_bit [OF bits] atLeastLessThan_iff set_upt)
  have d2: "i < length order \<Longrightarrow> (bit_at ?P i \<and> \<not> bit_at ?S (rank ?P i)) =
            (order ! i \<in> A \<union> B \<and> \<not> split_mark A B ?M (order ! i))" for i
    using decode_bit [OF bits, of i] by (simp only: bit_at_unpack_pack bit_at_map) blast
  have f2: "filter (bit_at (unpackbits c2)) [0..<length order] =
            filter (\<lambda>i. order ! i \<in> A \<union> B \<and> \<not> split_mark A B ?M (order ! i)) [0..<length order]"
    by (rule filter_cong [OF refl]) (simp only: b2 d2 atLeastLessThan_iff set_upt)
  show ?thesis
    unfolding n1 n2 f1 f2
    using map_nth_filter [of order "\<lambda>t. t \<in> A \<union> B \<and> split_mark A B ?M t"]
      map_nth_filter [of order "\<lambda>t. t \<in> A \<union> B \<and> \<not> split_mark A B ?M t"]
    by simp
qed




lemma bit_at_cherry: "bit_at (unpackbits cherry_hash) j = (j = 0)"
  by (auto simp: cherry_hash_def unpackbits_def unpack8_def bit_at_def nth_Cons split: nat.splits)

lemma clade_size_packbits: "clade_size (packbits bs) = length (filter (\<lambda>b. b) bs)"
  by (simp add: clade_size_def unpackbits_packbits)

lemma members_swap: "members B A order = members A B order"
  by (simp add: members_def Un_commute)

lemma split_mark_swap:
  assumes "A \<inter> B = {}" "members A B order \<noteq> []" "t \<in> set (members A B order)"
  shows "split_mark B A (members A B order) t = split_mark A B (members A B order) t"
proof -
  have "hd (members A B order) \<in> set (members A B order)" using assms(2) by simp
  then have "hd (members A B order) \<in> A \<union> B" by (simp add: members_def)
  moreover have "t \<in> A \<union> B" using assms(3) by (simp add: members_def)
  ultimately show ?thesis using assms(1) by (auto simp: split_mark_def)
qed

lemma calculate_node_hashes_swap:
  assumes "A \<inter> B = {}"
  shows "calculate_node_hashes A B order = calculate_node_hashes B A order"
proof -
  have "map (split_mark B A (members A B order)) (members A B order) =
        map (split_mark A B (members A B order)) (members A B order)"
  proof (rule map_cong [OF refl])
    fix t assume t: "t \<in> set (members A B order)"
    then have ne: "members A B order \<noteq> []" by auto
    show "split_mark B A (members A B order) t = split_mark A B (members A B order) t"
      using assms ne t by (rule split_mark_swap)
  qed
  then show ?thesis
    by (simp only: calculate_node_hashes_eq members_swap Un_commute [of B A])
qed

lemma recovered_sets:
  assumes "A \<inter> B = {}" "A \<union> B \<subseteq> set order"
  shows "set (filter (\<lambda>t. t \<in> A \<union> B \<and> split_mark A B ms t) order) = (if hd ms \<in> A then A else B)"
    and "set (filter (\<lambda>t. t \<in> A \<union> B \<and> \<not> split_mark A B ms t) order) = (if hd ms \<in> A then B else A)"
  using assms by (auto simp: split_mark_def)

lemma recovers_bipartitionI:
  assumes "A \<inter> B = {}" "A \<union> B \<subseteq> set order"
    and bits: "\<And>j. bit_at (unpackbits s') j =
              (j < length (members A B order) \<and> split_mark A B (members A B order) (members A B order ! j))"
  shows "recovers_bipartition order A B (packbits (map (\<lambda>t. t \<in> A \<union> B) order)) s'"
proof -
  obtain c1 c2 where c: "elucidate_cc_split (packbits (map (\<lambda>t. t \<in> A \<union> B) order)) s' = (c1, c2)"
    by (cases "elucidate_cc_split (packbits (map (\<lambda>t. t \<in> A \<union> B) order)) s'")
  from decode_names [OF bits c] show ?thesis
    unfolding recovers_bipartition_def c
    using recovered_sets [OF assms(1,2), of "members A B order"]
    by (simp del: Un_iff)
qed


lemma cherry_bits:
  assumes "A \<noteq> {}" "B \<noteq> {}" "A \<inter> B = {}" "A \<union> B \<subseteq> set order"
    and two: "length (members A B order) = 2"
  shows "bit_at (unpackbits cherry_hash) j =
           (j < length (members A B order) \<and>
            split_mark A B (members A B order) (members A B order ! j))"
proof -
  from two obtain x y where M: "members A B order = [x, y]"
    by (auto simp: eval_nat_numeral length_Suc_conv)
  have "set (members A B order) = A \<union> B"
    using assms(4) by (auto simp: members_def)
  then have AB: "A \<union> B = {x, y}" by (simp add: M)
  have sub: "A \<subseteq> {x, y}" "B \<subseteq> {x, y}" using AB by auto
  have x: "(x \<in> B) \<noteq> (x \<in> A)"
    using AB assms(3) by auto
  have y: "(y \<in> B) = (x \<in> A)"
  proof (cases "x \<in> A")
    case True
    then have "x \<notin> B" using assms(3) by auto
    then have "y \<in> B" using sub(2) assms(2) by auto
    with True show ?thesis by simp
  next
    case False
    then have "y \<in> A" using sub(1) assms(1) by auto
    then have "y \<notin> B" using assms(3) by auto
    with False show ?thesis by simp
  qed
  show ?thesis
  proof (cases j)
    case 0
    then show ?thesis using x by (simp add: bit_at_cherry M split_mark_def)
  next
    case (Suc k)
    then show ?thesis using y by (cases k) (simp_all add: bit_at_cherry M split_mark_def)
  qed
qed

text \<open>
  Claim C1. For disjoint non-empty leaf-name sets over the taxon order,
  \<open>calculate_node_hashes\<close> gives the same identifier pair whichever set comes first, and
  \<open>elucidate_cc_split\<close> followed by \<open>clade_taxon_names\<close> gives back the two sets: from
  the split identifier as computed, from any stored form of it that differs only in
  trailing zero bytes (the missing bits are read as child 2), and, for a clade of two
  taxa, from the cherry sentinel.
\<close>

theorem encode_decode_canonical:
  assumes "A \<noteq> {}" "B \<noteq> {}" "A \<inter> B = {}" "A \<union> B \<subseteq> set taxon_order"
  shows "calculate_node_hashes A B taxon_order = calculate_node_hashes B A taxon_order \<and>
         (\<exists>parent_id split_id.
            calculate_node_hashes A B taxon_order = Inr (parent_id, split_id) \<and>
            recovers_bipartition taxon_order A B parent_id split_id \<and>
            (\<forall>stored. rstrip0 stored = rstrip0 split_id \<longrightarrow>
               recovers_bipartition taxon_order A B parent_id stored) \<and>
            (clade_size parent_id = 2 \<longrightarrow>
               recovers_bipartition taxon_order A B parent_id cherry_hash))"
proof -
  let ?M = "members A B taxon_order"
  let ?p = "packbits (map (\<lambda>t. t \<in> A \<union> B) taxon_order)"
  let ?s = "packbits (map (split_mark A B ?M) ?M @ replicate (length taxon_order - length ?M) False)"
  have enc: "calculate_node_hashes A B taxon_order = Inr (?p, ?s)"
    by (rule calculate_node_hashes_eq)
  have bits: "bit_at (unpackbits ?s) j = (j < length ?M \<and> split_mark A B ?M (?M ! j))" for j
    by simp
  have stored: "recovers_bipartition taxon_order A B ?p s'" if "rstrip0 s' = rstrip0 ?s" for s'
  proof (rule recovers_bipartitionI [OF assms(3,4)])
    fix j
    have "bit_at (unpackbits s') j = bit_at (unpackbits (rstrip0 s')) j" by simp
    also have "\<dots> = bit_at (unpackbits ?s) j" unfolding that by simp
    finally show "bit_at (unpackbits s') j = (j < length ?M \<and> split_mark A B ?M (?M ! j))"
      by (simp only: bits)
  qed
  have size: "clade_size ?p = length ?M"
    by (simp add: clade_size_packbits members_def comp_def)
  have cherry: "recovers_bipartition taxon_order A B ?p cherry_hash" if "clade_size ?p = 2"
    by (rule recovers_bipartitionI [OF assms(3,4)], rule cherry_bits [OF assms])
       (use that size in simp)
  show ?thesis
    using calculate_node_hashes_swap [OF assms(3), of taxon_order] enc stored cherry
    by blast
qed

theorem encode_decode_canonical_witness:
  "{''B''} \<noteq> {} \<and> {''C''} \<noteq> {} \<and> {''B''} \<inter> {''C''} = {} \<and>
   {''B''} \<union> {''C''} \<subseteq> set [''A'', ''B'', ''C'', ''D'', ''E'', ''F'', ''G'', ''H'', ''I''] \<and>
   calculate_node_hashes {''B''} {''C''} [''A'', ''B'', ''C'', ''D'', ''E'', ''F'', ''G'', ''H'', ''I'']
     = Inr ([0x60, 0], [0x80, 0]) \<and>
   calculate_node_hashes {''C''} {''B''} [''A'', ''B'', ''C'', ''D'', ''E'', ''F'', ''G'', ''H'', ''I'']
     = Inr ([0x60, 0], [0x80, 0]) \<and>
   clade_size [0x60, 0] = 2 \<and>
   rstrip0 [0x80] = rstrip0 [0x80, 0] \<and>
   recovers_bipartition [''A'', ''B'', ''C'', ''D'', ''E'', ''F'', ''G'', ''H'', ''I''] {''B''} {''C''}
     [0x60, 0] [0x80] \<and>
   recovers_bipartition [''A'', ''B'', ''C'', ''D'', ''E'', ''F'', ''G'', ''H'', ''I''] {''B''} {''C''}
     [0x60, 0] cherry_hash"
proof -
  let ?order = "[''A'', ''B'', ''C'', ''D'', ''E'', ''F'', ''G'', ''H'', ''I'']"
  have a: "{''B''} \<noteq> {}" and b: "{''C''} \<noteq> {}"
    and c: "{''B''} \<inter> {''C''} = {}"
    and d: "{''B''} \<union> {''C''} \<subseteq> set ?order"
    by simp_all
  have enc: "calculate_node_hashes {''B''} {''C''} ?order = Inr ([0x60, 0], [0x80, 0])"
    by code_simp
  have size: "clade_size [0x60, 0] = 2"
    by code_simp
  have strip: "rstrip0 [0x80] = rstrip0 [0x80, 0::byte]"
    by code_simp
  from encode_decode_canonical [OF a b c d] enc size strip a b c d show ?thesis
    by auto
qed
section \<open>Properties of the probability tables\<close>

lemma lookup_all_dom:
  "set ks \<subseteq> dom m \<Longrightarrow> lookup_all m ks = Inr (map (\<lambda>k. the (m k)) ks)"
  by (induction ks) auto

lemma lookup_all_missing:
  "\<not> set ks \<subseteq> dom m \<Longrightarrow> lookup_all m ks = Inl KeyError"
proof (induction ks)
  case Nil
  then show ?case by simp
next
  case (Cons k ks)
  show ?case
  proof (cases "m k")
    case None
    then show ?thesis by simp
  next
    case (Some v)
    then have "\<not> set ks \<subseteq> dom m" using Cons.prems by auto
    then show ?thesis using Some Cons.IH by simp
  qed
qed

lemma convert_probabilities_ok:
  "set (hashes_array self) \<subseteq> dom (probabilities self) \<Longrightarrow>
   convert_probabilities self =
     Inr (self\<lparr>probabilities_array := map (\<lambda>h. the (probabilities self h)) (hashes_array self)\<rparr>)"
  by (simp add: convert_probabilities_def lookup_all_dom)

lemma add_probabilities_loop_ok:
  "set ks \<subseteq> dom new \<Longrightarrow>
   for_each (add_probabilities_step new) ks own = Inr (\<lambda>k. if k \<in> set ks then new k else own k)"
proof (induction ks arbitrary: own)
  case Nil
  then show ?case by simp
next
  case (Cons k ks)
  then obtain p where p: "new k = Some p" by auto
  have "for_each (add_probabilities_step new) ks (own(k \<mapsto> p)) =
          Inr (\<lambda>k'. if k' \<in> set ks then new k' else (own(k \<mapsto> p)) k')"
    using Cons by simp
  moreover have "(\<lambda>k'. if k' \<in> set ks then new k' else (own(k \<mapsto> p)) k') =
      (\<lambda>k'. if k' \<in> set (k # ks) then new k' else own k')"
    using p by (auto simp: fun_eq_iff)
  moreover have "add_probabilities_step new k own = Inr (own(k \<mapsto> p))"
    using p by (simp add: add_probabilities_step_def)
  ultimately show ?case
    by (simp del: set_simps)
qed

lemma add_probabilities_loop_missing:
  "\<not> set ks \<subseteq> dom new \<Longrightarrow> for_each (add_probabilities_step new) ks own = Inl KeyError"
  by (induction ks arbitrary: own) (auto simp: add_probabilities_step_def split: option.splits)

text \<open>
  Claim C4, as amended. When the argument mapping has every key of the table,
  \<open>add_probabilities\<close> overwrites the probability of every key of the table with the
  argument's value and leaves every other entry of the dict as it was. When some key of
  the table is not in the argument mapping, the operation fails with \<^verbatim>\<open>KeyError\<close>.
\<close>

theorem add_probabilities_overwrites:
  "(set (hashes_array self) \<subseteq> dom new_probabilities \<longrightarrow>
      add_probabilities self new_probabilities =
        Inr (self\<lparr>probabilities :=
                    (\<lambda>k. if k \<in> set (hashes_array self) then new_probabilities k
                         else probabilities self k),
                  probabilities_array :=
                    map (\<lambda>h. the (new_probabilities h)) (hashes_array self)\<rparr>)) \<and>
   (\<not> set (hashes_array self) \<subseteq> dom new_probabilities \<longrightarrow>
      add_probabilities self new_probabilities = Inl KeyError)"
proof (intro conjI impI)
  assume sub: "set (hashes_array self) \<subseteq> dom new_probabilities"
  let ?own = "\<lambda>k. if k \<in> set (hashes_array self) then new_probabilities k else probabilities self k"
  have "set (hashes_array (self\<lparr>probabilities := ?own\<rparr>)) \<subseteq> dom (probabilities (self\<lparr>probabilities := ?own\<rparr>))"
    using sub by auto
  from convert_probabilities_ok [OF this] show "add_probabilities self new_probabilities =
        Inr (self\<lparr>probabilities := ?own,
                  probabilities_array := map (\<lambda>h. the (new_probabilities h)) (hashes_array self)\<rparr>)"
    by (simp add: add_probabilities_def add_probabilities_loop_ok [OF sub] cong: map_cong)
next
  assume "\<not> set (hashes_array self) \<subseteq> dom new_probabilities"
  then show "add_probabilities self new_probabilities = Inl KeyError"
    by (simp add: add_probabilities_def add_probabilities_loop_missing)
qed


theorem add_probabilities_overwrites_witness:
  "set (hashes_array two_key_table) \<subseteq> dom [[0xA0::byte] \<mapsto> 1/4::real, [0xC0] \<mapsto> 3/4] \<and>
   add_probabilities two_key_table [[0xA0] \<mapsto> 1/4, [0xC0] \<mapsto> 3/4] =
     Inr (two_key_table\<lparr>probabilities :=
                 (\<lambda>k. if k \<in> set (hashes_array two_key_table)
                      then [[0xA0] \<mapsto> 1/4, [0xC0] \<mapsto> 3/4] k
                      else probabilities two_key_table k),
               probabilities_array :=
                 map (\<lambda>h. the ([[0xA0] \<mapsto> 1/4, [0xC0] \<mapsto> 3/4] h)) (hashes_array two_key_table)\<rparr>) \<and>
   \<not> set (hashes_array two_key_table) \<subseteq> dom [[0xA0::byte] \<mapsto> 1/4::real] \<and>
   add_probabilities two_key_table [[0xA0] \<mapsto> 1/4] = Inl KeyError"
proof -
  have a: "set (hashes_array two_key_table) \<subseteq> dom [[0xA0::byte] \<mapsto> 1/4::real, [0xC0] \<mapsto> 3/4]"
    and b: "\<not> set (hashes_array two_key_table) \<subseteq> dom [[0xA0::byte] \<mapsto> 1/4::real]"
    by (simp_all add: two_key_table_def)
  from add_probabilities_overwrites [of two_key_table "[[0xA0] \<mapsto> 1/4, [0xC0] \<mapsto> 3/4]"]
    add_probabilities_overwrites [of two_key_table "[[0xA0] \<mapsto> 1/4]"] a b
  show ?thesis by blast
qed

theorem add_probabilities_missing_key_fails:
  "[0xC0] \<in> set (hashes_array two_key_table) \<and> [[0xA0::byte] \<mapsto> 1/4::real] [0xC0] = None \<and>
   add_probabilities two_key_table [[0xA0] \<mapsto> 1/4] = Inl KeyError"
proof -
  have "\<not> set (hashes_array two_key_table) \<subseteq> dom [[0xA0::byte] \<mapsto> 1/4::real]"
    by (simp add: two_key_table_def)
  then have "add_probabilities two_key_table [[0xA0] \<mapsto> 1/4] = Inl KeyError"
    by (simp add: add_probabilities_def add_probabilities_loop_missing)
  then show ?thesis by (simp add: two_key_table_def)
qed
subsection \<open>Probabilities from counts\<close>

lemma normalize_loop_no_counts:
  "for_each (normalize_step math_exp Map.empty None) ks own =
     Inr (\<lambda>k. if k \<in> set ks then Some 0 else own k)"
proof (induction ks arbitrary: own)
  case Nil
  then show ?case by simp
next
  case (Cons k ks)
  have step: "normalize_step math_exp Map.empty None k own = Inr (own(k \<mapsto> 0))"
    by (simp add: normalize_step_def)
  have "(\<lambda>k'. if k' \<in> set ks then Some 0 else (own(k \<mapsto> 0)) k') =
        (\<lambda>k'. if k' \<in> set (k # ks) then Some 0 else own k')"
    by (auto simp: fun_eq_iff)
  with Cons.IH [of "own(k \<mapsto> 0)"] step show ?case
    by (simp only: for_each.simps sum.case)
qed

lemma probabilities_from_counts_empty:
  "probabilities_from_counts math_log math_exp logaddexp self [] =
     Inr (self\<lparr>probabilities :=
                 (\<lambda>k. if k \<in> set (hashes_array self) then Some 0 else probabilities self k),
               probabilities_array := replicate (length (hashes_array self)) 0\<rparr>)"
proof -
  let ?own = "\<lambda>k. if k \<in> set (hashes_array self) then Some 0 else probabilities self k"
  have loop: "for_each (normalize_step math_exp Map.empty None) (hashes_array self)
                (probabilities self) = Inr ?own"
    by (rule normalize_loop_no_counts)
  have "set (hashes_array (self\<lparr>probabilities := ?own\<rparr>)) \<subseteq> dom (probabilities (self\<lparr>probabilities := ?own\<rparr>))"
    by auto
  from convert_probabilities_ok [OF this] show ?thesis
    by (simp add: probabilities_from_counts_def loop map_replicate_const cong: map_cong)
qed

text \<open>
  Claim C9, as amended. With no counts, \<open>probabilities_from_counts\<close> succeeds and stores
  probability 0 for every key of the table; entries of the dict under other keys and
  the payloads are unchanged.
\<close>

theorem probabilities_from_counts_no_counts:
  "\<exists>self'. probabilities_from_counts math_log math_exp logaddexp self [] = Inr self' \<and>
      hashes_array self' = hashes_array self \<and> data_array self' = data_array self \<and>
      (\<forall>h \<in> set (hashes_array self). probabilities self' h = Some 0) \<and>
      (\<forall>h. h \<notin> set (hashes_array self) \<longrightarrow> probabilities self' h = probabilities self h) \<and>
      probabilities_array self' = replicate (length (hashes_array self)) 0"
  by (simp add: probabilities_from_counts_empty)

theorem probabilities_from_counts_no_counts_witness:
  "[0xA0] \<in> set (hashes_array two_key_table) \<and> [0xE0] \<notin> set (hashes_array two_key_table) \<and>
   map_sum id (\<lambda>t. (hashes_array t, data_array t, probabilities t [0xA0], probabilities t [0xE0],
                     probabilities_array t))
     (probabilities_from_counts (\<lambda>c. ln (real_of_int c)) exp (\<lambda>x y. ln (exp x + exp y))
        two_key_table []) =
       Inr ([[0xA0], [0xC0]], [''x'', ''y''], Some 0, None, [0, 0])"
proof -
  have m: "[0xA0] \<in> set (hashes_array two_key_table)" "[0xE0] \<notin> set (hashes_array two_key_table)"
    by (simp_all add: two_key_table_def)
  from probabilities_from_counts_no_counts [of "\<lambda>c. ln (real_of_int c)" exp
      "\<lambda>x y. ln (exp x + exp y)" two_key_table]
  obtain self' where r:
      "probabilities_from_counts (\<lambda>c. ln (real_of_int c)) exp (\<lambda>x y. ln (exp x + exp y))
         two_key_table [] = Inr self'"
      "hashes_array self' = hashes_array two_key_table"
      "data_array self' = data_array two_key_table"
      "\<forall>h \<in> set (hashes_array two_key_table). probabilities self' h = Some 0"
      "\<forall>h. h \<notin> set (hashes_array two_key_table) \<longrightarrow>
           probabilities self' h = probabilities two_key_table h"
      "probabilities_array self' = replicate (length (hashes_array two_key_table)) 0"
    by blast
  from r(4) m(1) have "probabilities self' [0xA0] = Some 0" by blast
  moreover from r(5) m(2) have "probabilities self' [0xE0] = probabilities two_key_table [0xE0]"
    by blast
  ultimately show ?thesis
    using r(1,2,3,6) m by (simp add: two_key_table_def)
qed

theorem probabilities_from_counts_empty_zero_fills:
  "probabilities_from_counts (\<lambda>c. ln (real_of_int c)) exp (\<lambda>x y. ln (exp x + exp y))
     two_key_table [] =
     Inr (two_key_table\<lparr>probabilities := [[0xA0] \<mapsto> 0, [0xC0] \<mapsto> 0],
                         probabilities_array := [0, 0]\<rparr>)"
proof -
  have "(\<lambda>k. if k \<in> set (hashes_array two_key_table) then Some 0 else probabilities two_key_table k) =
        [[0xA0] \<mapsto> 0, [0xC0] \<mapsto> 0]"
    by (auto simp: fun_eq_iff two_key_table_def)
  then show ?thesis
    by (simp add: probabilities_from_counts_empty) (simp add: two_key_table_def)
qed
subsection \<open>Culling\<close>

lemma running_probability_Suc:
  "k < length visit \<Longrightarrow>
   running_probability ps visit (Suc k) = running_probability ps visit k + ps ! (visit ! k)"
  by (simp add: running_probability_def take_Suc_conv_app_nth)


lemma culled_upto_Suc:
  "culled_upto ps visit mf mp (Suc k) =
     culled_upto ps visit mf mp k @ (if removed_at ps visit mf mp k then [visit ! k] else [])"
  by (simp add: culled_upto_def)

lemma culled_upto_subset:
  assumes "k \<le> length visit"
  shows "set (culled_upto ps visit mf mp k) \<subseteq> set (take k visit)"
proof
  fix x assume "x \<in> set (culled_upto ps visit mf mp k)"
  then obtain j where j: "j < k" "x = visit ! j" by (auto simp: culled_upto_def)
  then have "j < length (take k visit)" "take k visit ! j = x" using assms by simp_all
  then show "x \<in> set (take k visit)" by (metis nth_mem)
qed

lemma cull_loop:
  assumes dv: "distinct visit" and rng: "set visit \<subseteq> {0..<length hs}"
    and dh: "distinct (hashes_array self)" and dom: "set (hashes_array self) \<subseteq> dom (probabilities self)"
    and len: "length (probabilities_array self) = length (hashes_array self)"
    and hs: "hs = hashes_array self" and ps: "ps = probabilities_array self"
  shows "k \<le> length visit \<Longrightarrow>
     for_each (cull_step self mf mp) (take k visit) (0, 0, probabilities self, []) =
       Inr (int k, running_probability ps visit k,
            without_keys (probabilities self) (nth hs ` set (culled_upto ps visit mf mp k)),
            culled_upto ps visit mf mp k)"
proof (induction k)
  case 0
  then show ?case by (simp add: running_probability_def culled_upto_def without_keys_def)
next
  case (Suc k)
  then have k: "k < length visit" by simp
  let ?i = "visit ! k"
  let ?C = "culled_upto ps visit mf mp k"
  let ?own = "without_keys (probabilities self) (nth hs ` set ?C)"
  have i: "?i < length hs" using rng k by (metis atLeastLessThan_iff nth_mem subsetD)
  have "?i \<notin> set (take k visit)"
  proof
    assume "?i \<in> set (take k visit)"
    then obtain j where "j < k" "visit ! j = ?i"
      using k by (auto simp: in_set_conv_nth)
    with dv k show False by (simp add: nth_eq_iff_index_eq)
  qed
  then have notC: "?i \<notin> set ?C"
    using culled_upto_subset [of k visit ps mf mp] k by auto
  have Crng: "set ?C \<subseteq> {0..<length hs}"
    using culled_upto_subset [of k visit ps mf mp] k rng by (auto dest: in_set_takeD)
  have "hs ! ?i \<notin> nth hs ` set ?C"
  proof
    assume "hs ! ?i \<in> nth hs ` set ?C"
    then obtain j where j: "j \<in> set ?C" "hs ! j = hs ! ?i" by auto
    then have "j < length hs" using Crng by auto
    with j i dh hs have "j = ?i" by (simp add: nth_eq_iff_index_eq)
    with j notC show False by simp
  qed
  moreover have "hs ! ?i \<in> set hs" using i by simp
  then have "hs ! ?i \<in> dom (probabilities self)"
    using dom hs by blast
  ultimately obtain p where p: "?own (hs ! ?i) = Some p"
    by (auto simp: without_keys_def)
  have own': "?own(hs ! ?i := None) = without_keys (probabilities self) (nth hs ` set (?C @ [?i]))"
    by (auto simp: without_keys_def fun_eq_iff)
  have step: "cull_step self mf mp ?i (int k, running_probability ps visit k, ?own, ?C) =
      Inr (int (Suc k), running_probability ps visit (Suc k),
           without_keys (probabilities self) (nth hs ` set (culled_upto ps visit mf mp (Suc k))),
           culled_upto ps visit mf mp (Suc k))"
  proof (cases "removed_at ps visit mf mp k")
    case True
    then have test: "mf \<le> int k \<or> mp \<le> running_probability ps visit k"
      by (simp add: removed_at_def)
    show ?thesis
      using True test i p len
      by (simp add: cull_step_def Let_def hs [symmetric] ps [symmetric] culled_upto_Suc own'
          running_probability_Suc [OF k])
  next
    case False
    then have test: "\<not> (mf \<le> int k \<or> mp \<le> running_probability ps visit k)"
      by (simp add: removed_at_def)
    show ?thesis
      using False test i len
      by (simp add: cull_step_def Let_def hs [symmetric] ps [symmetric] culled_upto_Suc
          running_probability_Suc [OF k])
  qed
  have "take (Suc k) visit = take k visit @ [?i]"
    using k by (simp add: take_Suc_conv_app_nth)
  then show ?case
    using Suc.IH k step by (simp add: for_each_append)
qed


lemma is_argsort_rev:
  assumes "is_argsort ps asc"
  shows "distinct (rev asc)" and "set (rev asc) = {0..<length ps}" and "length (rev asc) = length ps"
proof -
  have m: "mset (rev asc) = mset [0..<length ps]"
    using assms by (simp add: is_argsort_def)
  show "distinct (rev asc)"
    using m by (metis distinct_upt mset_eq_imp_distinct_iff)
  show "set (rev asc) = {0..<length ps}"
    using m by (metis mset_eq_setD set_upt)
  show "length (rev asc) = length ps"
    using m by (metis length_upt mset_eq_length diff_zero)
qed

lemma numpy_delete_ok:
  "set obj \<subseteq> {0..<length arr} \<Longrightarrow>
   numpy_delete arr obj = Inr (map (nth arr) (filter (\<lambda>i. i \<notin> set obj) [0..<length arr]))"
  by (auto simp: numpy_delete_def list_all_iff)

lemma culled_indices_upto:
  "culled_indices ps visit mf mp = culled_upto ps visit mf mp (length visit)"
  by (simp add: culled_indices_def culled_upto_def)

lemma cull_probabilities_eq:
  assumes ok: "table_ok self"
    and srt: "is_argsort (probabilities_array self) (argsort (probabilities_array self))"
    and flat: "length (data_array self) \<le> length (ravel (data_array self))"
  shows "cull_probabilities argsort ravel self mf mp =
     Inr \<lparr>n_features =
            length (kept_indices (probabilities_array self)
                      (rev (argsort (probabilities_array self))) mf mp),
          hashes_array =
            map (nth (hashes_array self))
              (kept_indices (probabilities_array self)
                 (rev (argsort (probabilities_array self))) mf mp),
          data_array =
            map (nth (ravel (data_array self)))
              (filter (\<lambda>i. i \<notin> set (culled_indices (probabilities_array self)
                                       (rev (argsort (probabilities_array self))) mf mp))
                 [0..<length (ravel (data_array self))]),
          probabilities =
            without_keys (probabilities self)
              (nth (hashes_array self) `
                 set (culled_indices (probabilities_array self)
                        (rev (argsort (probabilities_array self))) mf mp)),
          probabilities_array =
            map (nth (probabilities_array self))
              (kept_indices (probabilities_array self)
                 (rev (argsort (probabilities_array self))) mf mp)\<rparr>"
proof -
  let ?ps = "probabilities_array self"
  let ?hs = "hashes_array self"
  let ?visit = "rev (argsort ?ps)"
  let ?C = "culled_indices ?ps ?visit mf mp"
  have len: "length ?ps = length ?hs" "length (data_array self) = length ?hs"
    and dh: "distinct ?hs" and dom: "set ?hs \<subseteq> dom (probabilities self)"
    using ok by (simp_all add: table_ok_def)
  note v = is_argsort_rev [OF srt]
  have rng: "set ?visit \<subseteq> {0..<length ?hs}" using v(2) len by simp
  have loop: "for_each (cull_step self mf mp) ?visit (0, 0, probabilities self, []) =
       Inr (int (length ?visit), running_probability ?ps ?visit (length ?visit),
            without_keys (probabilities self) (nth ?hs ` set ?C), ?C)"
    using cull_loop [OF v(1) rng dh dom len(1) refl refl, of "length ?visit" mf mp]
    by (simp add: culled_indices_upto)
  have Crng: "set ?C \<subseteq> {0..<length ?hs}"
    using culled_upto_subset [of "length ?visit" ?visit ?ps mf mp] rng
    by (auto simp: culled_indices_upto)
  have d1: "numpy_delete ?ps ?C = Inr (map (nth ?ps) (kept_indices ?ps ?visit mf mp))"
    using Crng len by (simp add: numpy_delete_ok kept_indices_def)
  have d2: "numpy_delete ?hs ?C = Inr (map (nth ?hs) (kept_indices ?ps ?visit mf mp))"
    using Crng len by (simp add: numpy_delete_ok kept_indices_def)
  have "set ?C \<subseteq> {0..<length (ravel (data_array self))}"
    using Crng len flat by auto
  then have d3: "numpy_delete (ravel (data_array self)) ?C =
      Inr (map (nth (ravel (data_array self)))
             (filter (\<lambda>i. i \<notin> set ?C) [0..<length (ravel (data_array self))]))"
    by (rule numpy_delete_ok)
  show ?thesis
    unfolding cull_probabilities_def Let_def loop sum.case prod.case d1 d2 d3
    by simp
qed



lemma two_key_table_ok: "table_ok two_key_table"
  by (auto simp: table_ok_def two_key_table_def)

lemma visit_culled_iff:
  assumes "distinct visit" "k < length visit"
  shows "visit ! k \<in> set (culled_indices ps visit mf mp) \<longleftrightarrow> removed_at ps visit mf mp k"
proof
  assume "visit ! k \<in> set (culled_indices ps visit mf mp)"
  then obtain j where j: "j < length visit" "removed_at ps visit mf mp j" "visit ! j = visit ! k"
    by (auto simp: culled_indices_def)
  with assms have "j = k" by (simp add: nth_eq_iff_index_eq)
  with j show "removed_at ps visit mf mp k" by simp
next
  assume "removed_at ps visit mf mp k"
  with assms(2) show "visit ! k \<in> set (culled_indices ps visit mf mp)"
    by (auto simp: culled_indices_def)
qed

lemma kept_indices_set:
  "set (kept_indices ps visit mf mp) = {0..<length ps} - set (culled_indices ps visit mf mp)"
  by (auto simp: kept_indices_def)

lemma kept_indices_distinct: "distinct (kept_indices ps visit mf mp)"
  by (simp add: kept_indices_def)





lemma is_argsort_descending:
  assumes "is_argsort ps asc" "k \<le> k'" "k' < length asc"
  shows "ps ! (rev asc ! k') \<le> ps ! (rev asc ! k)"
proof -
  have s: "sorted (map (nth ps) asc)" using assms(1) by (simp add: is_argsort_def)
  have "map (nth ps) asc ! (length asc - Suc k') \<le> map (nth ps) asc ! (length asc - Suc k)"
    using s assms(2,3) by (intro sorted_nth_mono) auto
  then show ?thesis
    using assms(2,3) by (simp add: rev_nth)
qed




lemma running_probability_mono:
  fixes ps :: "'f::{linorder,plus,zero} list"
  assumes mon: "\<And>x y :: 'f. 0 \<le> y \<Longrightarrow> x \<le> x + y"
    and nonneg: "\<forall>i \<in> set visit. 0 \<le> ps ! i"
    and le: "k \<le> k'"
  shows "running_probability ps visit k \<le> running_probability ps visit k'"
  using le
proof (induction rule: dec_induct)
  case base
  show ?case by simp
next
  case (step n)
  have "running_probability ps visit n \<le> running_probability ps visit (Suc n)"
  proof (cases "n < length visit")
    case True
    then have "0 \<le> ps ! (visit ! n)" using nonneg by simp
    then have "running_probability ps visit n \<le>
               running_probability ps visit n + ps ! (visit ! n)"
      by (rule mon)
    then show ?thesis using True by (simp add: running_probability_Suc)
  next
    case False
    then show ?thesis by (simp add: running_probability_def)
  qed
  with step.IH show ?case by (rule order_trans)
qed

lemma removed_at_mono:
  fixes ps :: "'f::{linorder,plus,zero} list"
  assumes mon: "\<And>x y :: 'f. 0 \<le> y \<Longrightarrow> x \<le> x + y"
    and nonneg: "\<forall>i \<in> set visit. 0 \<le> ps ! i"
    and le: "k \<le> k'"
    and rem: "removed_at ps visit mf mp k"
  shows "removed_at ps visit mf mp k'"
proof -
  have "running_probability ps visit k \<le> running_probability ps visit k'"
    using mon nonneg le by (rule running_probability_mono)
  then show ?thesis
    using le rem by (auto simp: removed_at_def)
qed

lemma kept_indices_image:
  assumes "distinct visit" "set visit = {0..<length ps}"
  shows "set (kept_indices ps visit mf mp) =
         nth visit ` {k. k < length visit \<and> \<not> removed_at ps visit mf mp k}"
proof (rule set_eqI)
  fix i
  show "i \<in> set (kept_indices ps visit mf mp) \<longleftrightarrow>
        i \<in> nth visit ` {k. k < length visit \<and> \<not> removed_at ps visit mf mp k}"
  proof
    assume "i \<in> set (kept_indices ps visit mf mp)"
    then have i: "i < length ps" "i \<notin> set (culled_indices ps visit mf mp)"
      by (auto simp: kept_indices_set)
    then have "i \<in> set visit" using assms(2) by simp
    then obtain k where k: "k < length visit" "visit ! k = i" by (auto simp: in_set_conv_nth)
    with i(2) visit_culled_iff [OF assms(1) k(1), of ps mf mp]
    show "i \<in> nth visit ` {k. k < length visit \<and> \<not> removed_at ps visit mf mp k}"
      by auto
  next
    assume "i \<in> nth visit ` {k. k < length visit \<and> \<not> removed_at ps visit mf mp k}"
    then obtain k where k: "k < length visit" "\<not> removed_at ps visit mf mp k" "i = visit ! k"
      by auto
    then have "i \<in> set visit" by simp
    then have "i < length ps" using assms(2) by simp
    with k visit_culled_iff [OF assms(1) k(1), of ps mf mp]
    show "i \<in> set (kept_indices ps visit mf mp)"
      by (simp add: kept_indices_set)
  qed
qed

lemma kept_count_bound:
  assumes "distinct visit" "set visit = {0..<length ps}"
  shows "int (length (kept_indices ps visit mf mp)) \<le> max 0 mf"
proof -
  let ?S = "{k. k < length visit \<and> \<not> removed_at ps visit mf mp k}"
  have "?S \<subseteq> {0..<nat mf}"
    by (auto simp: removed_at_def)
  then have "card ?S \<le> nat mf"
    by (metis card_mono finite_atLeastLessThan card_atLeastLessThan diff_zero)
  moreover have "length (kept_indices ps visit mf mp) = card (set (kept_indices ps visit mf mp))"
    using kept_indices_distinct [of ps visit mf mp] by (simp add: distinct_card)
  moreover have "card (nth visit ` ?S) \<le> card ?S"
    by (rule card_image_le) simp
  ultimately have "length (kept_indices ps visit mf mp) \<le> nat mf"
    by (simp add: kept_indices_image [OF assms])
  then show ?thesis by simp
qed

lemma kept_prefix:
  fixes ps :: "'f::{linorder,plus,zero} list"
  assumes mon: "\<And>x y :: 'f. 0 \<le> y \<Longrightarrow> x \<le> x + y"
    and nonneg: "\<forall>i \<in> set visit. 0 \<le> ps ! i"
    and dv: "distinct visit" and sv: "set visit = {0..<length ps}"
    and ne: "kept_indices ps visit mf mp \<noteq> []"
  shows "\<exists>m < length visit. \<not> removed_at ps visit mf mp m \<and>
           mset (kept_indices ps visit mf mp) = mset (take (Suc m) visit)"
proof -
  let ?S = "{k. k < length visit \<and> \<not> removed_at ps visit mf mp k}"
  have fin: "finite ?S" by simp
  have "set (kept_indices ps visit mf mp) \<noteq> {}" using ne by simp
  then have Sne: "?S \<noteq> {}"
    by (simp add: kept_indices_image [OF dv sv])
  define m where "m = Max ?S"
  have mS: "m \<in> ?S" unfolding m_def using fin Sne by (rule Max_in)
  then have m: "m < length visit" "\<not> removed_at ps visit mf mp m" by simp_all
  have below: "\<not> removed_at ps visit mf mp k" if "k \<le> m" for k
    using removed_at_mono [OF mon nonneg that] m(2) by blast
  have above: "k \<le> m" if "k \<in> ?S" for k
    unfolding m_def using fin that by (rule Max_ge)
  have "?S = {0..<Suc m}"
    using below above m(1) by (auto simp: less_Suc_eq_le)
  then have "set (kept_indices ps visit mf mp) = set (take (Suc m) visit)"
    using m(1) by (simp add: kept_indices_image [OF dv sv] nth_image)
  then have "mset (kept_indices ps visit mf mp) = mset (take (Suc m) visit)"
    using kept_indices_distinct [of ps visit mf mp] dv
    by (simp add: set_eq_iff_mset_eq_distinct [symmetric])
  with m show ?thesis by blast
qed

lemma culled_not_above_kept:
  fixes ps :: "'f::{linorder,plus,zero} list"
  assumes mon: "\<And>x y :: 'f. 0 \<le> y \<Longrightarrow> x \<le> x + y"
    and nonneg: "\<forall>i \<in> set (rev asc). 0 \<le> ps ! i"
    and srt: "is_argsort ps asc"
    and c: "i \<in> set (culled_indices ps (rev asc) mf mp)"
    and k: "i' \<in> set (kept_indices ps (rev asc) mf mp)"
  shows "ps ! i \<le> ps ! i'"
proof -
  let ?visit = "rev asc"
  note v = is_argsort_rev [OF srt]
  from c obtain a where a: "a < length ?visit" "removed_at ps ?visit mf mp a" "i = ?visit ! a"
    by (auto simp: culled_indices_def)
  from k obtain b where b: "b < length ?visit" "\<not> removed_at ps ?visit mf mp b" "i' = ?visit ! b"
    by (auto simp: kept_indices_image [OF v(1,2)])
  have "b \<le> a"
  proof (rule ccontr)
    assume "\<not> b \<le> a"
    then have "a \<le> b" by simp
    from removed_at_mono [OF mon nonneg this a(2)] b(2) show False by simp
  qed
  with is_argsort_descending [OF srt this] a b show ?thesis by simp
qed

text \<open>
  Claim C8, as amended. Take a table of non-negative probabilities whose flattened
  payload array has an element for each key at least, and floats whose addition never
  gives less than its left argument when the right one is non-negative (true of the
  64-bit floats, whose rounding is monotone). Then no removed key has a higher
  probability than a retained key (equal probabilities can fall on both sides); at most
  \<open>max_features\<close> keys are retained (none when it is negative); and the retained keys are
  the first ones visited, the running probability the loop had added up before the last
  of them being below \<open>max_probability\<close>, so that the retained keys without that last one
  are within the probability bound.
\<close>

theorem cull_probabilities_bounds:
  fixes self :: "('k, 'd, 'f::{linorder,plus,zero}) table"
  assumes ok: "table_ok self"
    and srt: "is_argsort (probabilities_array self) (argsort (probabilities_array self))"
    and flat: "length (data_array self) \<le> length (ravel (data_array self))"
    and nonneg: "\<forall>p \<in> set (probabilities_array self). 0 \<le> p"
    and mon: "\<And>x y :: 'f. 0 \<le> y \<Longrightarrow> x \<le> x + y"
  shows "\<exists>self'. cull_probabilities argsort ravel self max_features max_probability = Inr self' \<and>
     (\<forall>removed \<in> set (hashes_array self) - set (hashes_array self').
        \<forall>retained \<in> set (hashes_array self').
          the (probabilities self removed) \<le> the (probabilities self retained)) \<and>
     n_features self' = length (hashes_array self') \<and>
     int (n_features self') \<le> max 0 max_features \<and>
     (hashes_array self' \<noteq> [] \<longrightarrow>
        (\<exists>m < length (hashes_array self).
           mset (hashes_array self') =
             mset (map (nth (hashes_array self))
                     (take (Suc m) (rev (argsort (probabilities_array self))))) \<and>
           running_probability (probabilities_array self)
             (rev (argsort (probabilities_array self))) m < max_probability))"
proof -
  let ?ps = "probabilities_array self"
  let ?hs = "hashes_array self"
  let ?visit = "rev (argsort ?ps)"
  let ?C = "culled_indices ?ps ?visit max_features max_probability"
  let ?K = "kept_indices ?ps ?visit max_features max_probability"
  let ?D = "map (nth (ravel (data_array self)))
              (filter (\<lambda>i. i \<notin> set ?C) [0..<length (ravel (data_array self))])"
  let ?self' = "\<lparr>n_features = length ?K,
               hashes_array = map (nth ?hs) ?K,
               data_array = ?D,
               probabilities = without_keys (probabilities self) (nth ?hs ` set ?C),
               probabilities_array = map (nth ?ps) ?K\<rparr>"
  have len: "length ?ps = length ?hs" and dh: "distinct ?hs"
    and pa: "?ps = map (\<lambda>h. the (probabilities self h)) ?hs"
    using ok by (simp_all add: table_ok_def)
  note v = is_argsort_rev [OF srt]
  have lv: "length ?visit = length ?hs"
    using v(1,2) len by (metis distinct_card card_atLeastLessThan diff_zero)
  have res: "cull_probabilities argsort ravel self max_features max_probability = Inr ?self'"
    using ok srt flat by (rule cull_probabilities_eq)
  have nn: "\<forall>i \<in> set ?visit. 0 \<le> ?ps ! i"
    using nonneg v(2) by (metis atLeastLessThan_iff nth_mem)
  have Kset: "set ?K = {0..<length ?hs} - set ?C"
    by (simp add: kept_indices_set len)
  have order: "the (probabilities self r) \<le> the (probabilities self t)"
    if r: "r \<in> set ?hs - set (map (nth ?hs) ?K)" and t: "t \<in> set (map (nth ?hs) ?K)" for r t
  proof -
    from r obtain i where i: "i < length ?hs" "r = ?hs ! i" by (auto simp: in_set_conv_nth)
    with r have "i \<notin> set ?K" by auto
    with i Kset have iC: "i \<in> set ?C" by simp
    from t obtain i' where i': "i' \<in> set ?K" "t = ?hs ! i'" by auto
    then have lt: "i' < length ?hs" using Kset by simp
    have "?ps ! i \<le> ?ps ! i'"
      using mon nn srt iC i'(1) by (rule culled_not_above_kept)
    moreover have "?ps ! i = the (probabilities self r)"
      using i by (subst pa) simp
    moreover have "?ps ! i' = the (probabilities self t)"
      using i' lt by (subst pa) simp
    ultimately show ?thesis by simp
  qed
  have count: "int (length ?K) \<le> max 0 max_features"
    using v(1,2) by (rule kept_count_bound)
  have prefix: "\<exists>m < length ?hs.
           mset (map (nth ?hs) ?K) = mset (map (nth ?hs) (take (Suc m) ?visit)) \<and>
           running_probability ?ps ?visit m < max_probability"
    if ne: "map (nth ?hs) ?K \<noteq> []"
  proof -
    have "?K \<noteq> []" using ne by simp
    with kept_prefix [OF mon nn v(1,2)]
    obtain m where m: "m < length ?visit" "\<not> removed_at ?ps ?visit max_features max_probability m"
      "mset ?K = mset (take (Suc m) ?visit)"
      by blast
    have "mset (map (nth ?hs) ?K) = mset (map (nth ?hs) (take (Suc m) ?visit))"
      using m(3) by (metis mset_map)
    moreover have "running_probability ?ps ?visit m < max_probability"
      using m(2) by (simp add: removed_at_def not_le)
    ultimately show ?thesis using m(1) lv by auto
  qed
  have "(\<forall>removed \<in> set ?hs - set (hashes_array ?self').
        \<forall>retained \<in> set (hashes_array ?self').
          the (probabilities self removed) \<le> the (probabilities self retained)) \<and>
     n_features ?self' = length (hashes_array ?self') \<and>
     int (n_features ?self') \<le> max 0 max_features \<and>
     (hashes_array ?self' \<noteq> [] \<longrightarrow>
        (\<exists>m < length ?hs.
           mset (hashes_array ?self') = mset (map (nth ?hs) (take (Suc m) ?visit)) \<and>
           running_probability ?ps ?visit m < max_probability))"
    using order count prefix by (simp del: set_map)
  with res show ?thesis by blast
qed

lemma stable_argsort_ok: "is_argsort ps (stable_argsort ps)"
  by (simp add: is_argsort_def stable_argsort_def)





theorem cull_probabilities_ties_counterexample:
  "map_sum id hashes_array
     (cull_probabilities stable_argsort (\<lambda>xs. xs) two_key_table 1 1) = Inr [[0xC0]] \<and>
   [0xA0] \<in> set (hashes_array two_key_table) \<and>
   \<not> the (probabilities two_key_table [0xA0]) < the (probabilities two_key_table [0xC0])"
proof -
  have "map_sum id hashes_array
     (cull_probabilities stable_argsort (\<lambda>xs. xs) two_key_table 1 1) = Inr [[0xC0]]"
    by code_simp
  then show ?thesis by (simp add: two_key_table_def)
qed

theorem cull_probabilities_bounds_witness:
  "table_ok two_key_table \<and>
   is_argsort (probabilities_array two_key_table) (stable_argsort (probabilities_array two_key_table)) \<and>
   probabilities_array two_key_table = [1/2, 1/2] \<and>
   map_sum id (\<lambda>t. (hashes_array t, probabilities_array t, n_features t))
     (cull_probabilities stable_argsort (\<lambda>xs. xs) two_key_table 1 1) = Inr ([[0xC0]], [1/2], 1) \<and>
   the (probabilities two_key_table [0xA0]) \<le> the (probabilities two_key_table [0xC0]) \<and>
   running_probability (probabilities_array two_key_table)
     (rev (stable_argsort (probabilities_array two_key_table))) 0 < 1"
proof -
  have nn: "\<forall>p \<in> set (probabilities_array two_key_table). 0 \<le> p"
    by (simp add: two_key_table_def)
  have mon: "\<And>x y :: real. 0 \<le> y \<Longrightarrow> x \<le> x + y" by simp
  have flat: "length (data_array two_key_table) \<le> length ((\<lambda>xs. xs) (data_array two_key_table))"
    by simp
  have run: "map_sum id (\<lambda>t. (hashes_array t, probabilities_array t, n_features t))
     (cull_probabilities stable_argsort (\<lambda>xs. xs) two_key_table 1 1) = Inr ([[0xC0]], [1/2], 1)"
    by code_simp
  from cull_probabilities_bounds [where self = two_key_table and argsort = stable_argsort
      and ravel = "\<lambda>xs. xs" and max_features = 1 and max_probability = 1,
      OF two_key_table_ok stable_argsort_ok flat nn mon]
  obtain self' where r:
    "cull_probabilities stable_argsort (\<lambda>xs. xs) two_key_table 1 1 = Inr self'"
    "\<forall>removed \<in> set (hashes_array two_key_table) - set (hashes_array self').
        \<forall>retained \<in> set (hashes_array self').
          the (probabilities two_key_table removed) \<le> the (probabilities two_key_table retained)"
    "hashes_array self' \<noteq> [] \<longrightarrow>
        (\<exists>m < length (hashes_array two_key_table).
           mset (hashes_array self') =
             mset (map (nth (hashes_array two_key_table))
                     (take (Suc m) (rev (stable_argsort (probabilities_array two_key_table))))) \<and>
           running_probability (probabilities_array two_key_table)
             (rev (stable_argsort (probabilities_array two_key_table))) m < 1)"
    by blast
  from r(1) run have hs: "hashes_array self' = [[0xC0]]" by simp
  have "[0xA0] \<in> set (hashes_array two_key_table) - set (hashes_array self')"
    "[0xC0] \<in> set (hashes_array self')"
    by (simp_all add: hs two_key_table_def)
  with r(2) have le: "the (probabilities two_key_table [0xA0]) \<le> the (probabilities two_key_table [0xC0])"
    by blast
  from r(3) hs obtain m where m: "m < length (hashes_array two_key_table)"
    "mset [[0xC0 :: byte]] =
       mset (map (nth (hashes_array two_key_table))
               (take (Suc m) (rev (stable_argsort (probabilities_array two_key_table)))))"
    "running_probability (probabilities_array two_key_table)
       (rev (stable_argsort (probabilities_array two_key_table))) m < 1"
    by auto
  have len2: "length (stable_argsort (probabilities_array two_key_table)) = 2"
    by (simp add: stable_argsort_def two_key_table_def)
  from arg_cong [OF m(2), of size] have "m = 0"
    by (simp add: len2)
  with m(3) have run0: "running_probability (probabilities_array two_key_table)
     (rev (stable_argsort (probabilities_array two_key_table))) 0 < 1"
    by simp
  from le run0 r(1) run two_key_table_ok stable_argsort_ok [of "probabilities_array two_key_table"]
  show ?thesis by (simp add: two_key_table_def)
qed
section \<open>Properties of the conditional clade model\<close>

lemma node_probability_step_eq:
  "node_probability_step cc_sets node nps =
     (if 3 \<le> clade_size (numpy_load (fst node)) then
        (if split_known cc_sets (numpy_load (fst node), numpy_load (snd node))
         then Inr (nps @ [split_probability cc_sets (numpy_load (fst node), numpy_load (snd node))])
         else Inl KeyError)
      else Inr nps)"
  by (auto simp: node_probability_step_def Let_def split_known_def split_probability_def
      split: option.splits)

lemma modeled_records_Cons:
  "modeled_records (node # topology_array) =
     (if 3 \<le> clade_size (numpy_load (fst node))
      then [(numpy_load (fst node), numpy_load (snd node))] else []) @
     modeled_records topology_array"
  by (simp add: modeled_records_def)

lemma node_probability_loop:
  "for_each (node_probability_step cc_sets) topology_array nps =
     (if topology_known cc_sets topology_array
      then Inr (nps @ map (split_probability cc_sets) (modeled_records topology_array))
      else Inl KeyError)"
proof (induction topology_array arbitrary: nps)
  case Nil
  then show ?case by (simp add: topology_known_def modeled_records_def)
next
  case (Cons node topology_array)
  have known: "topology_known cc_sets (node # topology_array) \<longleftrightarrow>
      (3 \<le> clade_size (numpy_load (fst node)) \<longrightarrow>
         split_known cc_sets (numpy_load (fst node), numpy_load (snd node))) \<and>
      topology_known cc_sets topology_array"
    by (simp add: topology_known_def modeled_records_Cons)
  note step = node_probability_step_eq [of cc_sets node nps]
  show ?case
    by (simp only: for_each.simps step known modeled_records_Cons) (simp add: Cons.IH)
qed

lemma topology_probability_step_eq:
  assumes "i < length topology_arrays" "i < length (hashes_array self)"
  shows "topology_probability_step self topology_arrays cc_sets i own =
     (if topology_known cc_sets (topology_arrays ! i)
      then Inr (own(hashes_array self ! i \<mapsto> topology_probability cc_sets (topology_arrays ! i)))
      else Inl KeyError)"
  using assms
  by (simp add: topology_probability_step_def Let_def node_probability_loop topology_probability_def)

lemma topology_probability_loop_ok:
  assumes "n \<le> length topology_arrays" "n \<le> length (hashes_array self)"
    and "\<forall>i<n. topology_known cc_sets (topology_arrays ! i)"
  shows "for_each (topology_probability_step self topology_arrays cc_sets) [0..<n] own =
     Inr (\<lambda>k. case find (\<lambda>i. hashes_array self ! i = k) (rev [0..<n]) of
               Some i \<Rightarrow> Some (topology_probability cc_sets (topology_arrays ! i))
             | None \<Rightarrow> own k)"
  using assms
proof (induction n)
  case 0
  then show ?case by simp
next
  case (Suc n)
  let ?res = "\<lambda>n k. case find (\<lambda>i. hashes_array self ! i = k) (rev [0..<n]) of
               Some i \<Rightarrow> Some (topology_probability cc_sets (topology_arrays ! i))
             | None \<Rightarrow> own k"
  have IH: "for_each (topology_probability_step self topology_arrays cc_sets) [0..<n] own = Inr (?res n)"
    using Suc by simp
  have step: "topology_probability_step self topology_arrays cc_sets n (?res n) =
      Inr ((?res n)(hashes_array self ! n \<mapsto> topology_probability cc_sets (topology_arrays ! n)))"
    using Suc.prems by (simp add: topology_probability_step_eq)
  have "(?res n)(hashes_array self ! n \<mapsto> topology_probability cc_sets (topology_arrays ! n)) = ?res (Suc n)"
    by (auto simp: fun_eq_iff)
  with IH step show ?case
    by (simp only: upt_Suc_append [OF le0] for_each_append for_each.simps sum.case)
qed

lemma topology_probability_loop_missing:
  assumes "n \<le> length topology_arrays" "n \<le> length (hashes_array self)"
    and "\<not> (\<forall>i<n. topology_known cc_sets (topology_arrays ! i))"
  shows "for_each (topology_probability_step self topology_arrays cc_sets) [0..<n] own = Inl KeyError"
  using assms
proof (induction n)
  case 0
  then show ?case by simp
next
  case (Suc n)
  show ?case
  proof (cases "\<forall>i<n. topology_known cc_sets (topology_arrays ! i)")
    case True
    with Suc.prems have "\<not> topology_known cc_sets (topology_arrays ! n)"
      by (auto simp: less_Suc_eq)
    moreover have "n \<le> length topology_arrays" "n \<le> length (hashes_array self)"
      using Suc.prems by simp_all
    ultimately show ?thesis
      using Suc.prems(1,2) topology_probability_loop_ok [OF _ _ True, of self own]
      by (simp only: upt_Suc_append [OF le0] for_each_append for_each.simps sum.case)
         (simp add: topology_probability_step_eq)
  next
    case False
    with Suc show ?thesis by (simp add: for_each_append)
  qed
qed

lemma find_rev_upt_distinct:
  assumes "distinct ks" "i < n" "n \<le> length ks"
  shows "find (\<lambda>j. ks ! j = ks ! i) (rev [0..<n]) = Some i"
proof -
  have "\<And>j. j < n \<Longrightarrow> (ks ! j = ks ! i) = (j = i)"
    using assms by (simp add: nth_eq_iff_index_eq)
  then have "find (\<lambda>j. ks ! j = ks ! i) (rev [0..<n]) = find (\<lambda>j. j = i) (rev [0..<n])"
    by (intro find_cong) auto
  also have "\<dots> = Some i"
    using assms(2) by (induction n) (auto simp: less_Suc_eq)
  finally show ?thesis .
qed

lemma find_rev_upt_none:
  assumes "k \<notin> set (take n ks)" "n \<le> length ks"
  shows "find (\<lambda>j. ks ! j = k) (rev [0..<n]) = None"
  using assms by (auto simp: find_None_iff in_set_conv_nth)


lemma topology_sample_loop_length:
  "for_each (topology_sample_step ete2_Tree ds) [0..<k] ([], []) = Inr (order, arrays) \<Longrightarrow>
   length arrays = k"
proof (induction k arbitrary: order arrays)
  case 0
  then show ?case by simp
next
  case (Suc k)
  from Suc.prems obtain o' a' where
    prev: "for_each (topology_sample_step ete2_Tree ds) [0..<k] ([], []) = Inr (o', a')"
    and step: "topology_sample_step ete2_Tree ds k (o', a') = Inr (order, arrays)"
    by (auto simp: for_each_append split: sum.splits)
  from step have "length arrays = Suc (length a')"
    by (auto simp: topology_sample_step_def Let_def split: sum.splits)
  with Suc.IH [OF prev] show ?case by simp
qed

lemma TopologySample_length:
  "TopologySample ete2_Tree ds = Inr (order, arrays) \<Longrightarrow> length arrays = length ds"
  unfolding TopologySample_def by (rule topology_sample_loop_length)

text \<open>
  Claim C6, as amended. On a table of topologies that parse into bifurcating trees:
  when the model has, for every record of a clade of three taxa or more, the clade and
  in the clade's table the split, \<open>probabilities_from_ccs\<close> gives every topology the
  product of the stored probabilities of those records' splits, the records of smaller
  clades being skipped (so the product is 1 when there is no larger clade); when some
  such clade or split is absent from the model, the operation fails with \<^verbatim>\<open>KeyError\<close>.
\<close>

theorem probabilities_from_ccs_product:
  assumes ok: "table_ok self"
    and sample: "TopologySample ete2_Tree (data_array self) = Inr (taxon_order, topology_arrays)"
  shows "((\<forall>i < n_features self. topology_known cc_sets (topology_arrays ! i)) \<longrightarrow>
           (\<exists>self'. probabilities_from_ccs ete2_Tree self cc_sets = Inr self' \<and>
              (\<forall>i < n_features self.
                 probabilities self' (hashes_array self ! i) =
                   Some (topology_probability cc_sets (topology_arrays ! i))) \<and>
              (\<forall>i < n_features self.
                 modeled_records (topology_arrays ! i) = [] \<longrightarrow>
                   probabilities self' (hashes_array self ! i) = Some 1))) \<and>
         (\<not> (\<forall>i < n_features self. topology_known cc_sets (topology_arrays ! i)) \<longrightarrow>
            probabilities_from_ccs ete2_Tree self cc_sets = Inl KeyError)"
proof (intro conjI impI)
  let ?n = "n_features self"
  let ?hs = "hashes_array self"
  have n: "?n = length ?hs" and dh: "distinct ?hs"
    and dom: "dom (probabilities self) = set ?hs"
    and "length (data_array self) = length ?hs"
    using ok by (simp_all add: table_ok_def)
  then have len: "?n \<le> length topology_arrays" "?n \<le> length ?hs"
    using TopologySample_length [OF sample] by simp_all
  {
    assume known: "\<forall>i < ?n. topology_known cc_sets (topology_arrays ! i)"
    let ?own = "\<lambda>k. case find (\<lambda>i. ?hs ! i = k) (rev [0..<?n]) of
               Some i \<Rightarrow> Some (topology_probability cc_sets (topology_arrays ! i))
             | None \<Rightarrow> probabilities self k"
    have loop: "for_each (topology_probability_step self topology_arrays cc_sets) [0..<?n]
                  (probabilities self) = Inr ?own"
      using len known by (rule topology_probability_loop_ok)
    have val: "?own (?hs ! i) = Some (topology_probability cc_sets (topology_arrays ! i))"
      if "i < ?n" for i
      using find_rev_upt_distinct [OF dh that len(2)] by simp
    have "set (hashes_array (self\<lparr>probabilities := ?own\<rparr>)) \<subseteq> dom (probabilities (self\<lparr>probabilities := ?own\<rparr>))"
    proof
      fix h assume "h \<in> set (hashes_array (self\<lparr>probabilities := ?own\<rparr>))"
      then obtain i where "i < ?n" "h = ?hs ! i" by (auto simp: in_set_conv_nth n)
      with val show "h \<in> dom (probabilities (self\<lparr>probabilities := ?own\<rparr>))" by auto
    qed
    from convert_probabilities_ok [OF this]
    have res: "probabilities_from_ccs ete2_Tree self cc_sets =
        Inr (self\<lparr>probabilities := ?own,
                  probabilities_array := map (\<lambda>h. the (?own h)) ?hs\<rparr>)"
      by (simp add: probabilities_from_ccs_def sample loop)
    have one: "?own (?hs ! i) = Some 1"
      if "i < ?n" "modeled_records (topology_arrays ! i) = []" for i
      using val [OF that(1)] that(2) by (simp add: topology_probability_def)
    show "\<exists>self'. probabilities_from_ccs ete2_Tree self cc_sets = Inr self' \<and>
              (\<forall>i < ?n. probabilities self' (?hs ! i) =
                   Some (topology_probability cc_sets (topology_arrays ! i))) \<and>
              (\<forall>i < ?n. modeled_records (topology_arrays ! i) = [] \<longrightarrow>
                   probabilities self' (?hs ! i) = Some 1)"
      unfolding res using val one by simp
  }
  {
    assume "\<not> (\<forall>i < ?n. topology_known cc_sets (topology_arrays ! i))"
    with len have "for_each (topology_probability_step self topology_arrays cc_sets) [0..<?n]
                  (probabilities self) = Inl KeyError"
      by (rule topology_probability_loop_missing)
    then show "probabilities_from_ccs ete2_Tree self cc_sets = Inl KeyError"
      by (simp add: probabilities_from_ccs_def sample)
  }
qed

lemma topology_table_ok: "table_ok topology_table"
  by (auto simp: table_ok_def topology_table_def)

lemma topology_table_sample:
  "TopologySample (\<lambda>t. t) (data_array topology_table) =
     Inr ([''A'', ''B'', ''C''],
          [[([0xA0], [0x80]), ([0xE0], [0xA0])], [([0xC0], [0x80]), ([0xE0], [0xC0])]])"
  by code_simp


theorem probabilities_from_ccs_product_witness:
  "table_ok topology_table \<and>
   TopologySample (\<lambda>t. t) (data_array topology_table) =
     Inr ([''A'', ''B'', ''C''],
          [[([0xA0], [0x80]), ([0xE0], [0xA0])], [([0xC0], [0x80]), ([0xE0], [0xC0])]]) \<and>
   topology_known [([0xE0], root_splits)] [([0xA0], [0x80]), ([0xE0], [0xA0])] \<and>
   topology_known [([0xE0], root_splits)] [([0xC0], [0x80]), ([0xE0], [0xC0])] \<and>
   map_sum id (\<lambda>t. (probabilities t [0xA0, 0xE0], probabilities t [0xC0, 0xE0]))
     (probabilities_from_ccs (\<lambda>t. t) topology_table [([0xE0], root_splits)]) =
       Inr (Some (1/3), Some (2/3)) \<and>
   map_sum id probabilities_array
     (probabilities_from_ccs (\<lambda>t. t) topology_table [([0xE0], root_one_split)]) = Inl KeyError"
proof -
  let ?arrays = "[[([0xA0], [0x80]), ([0xE0], [0xA0])], [([0xC0], [0x80]), ([0xE0::byte], [0xC0::byte])]]"
  have k0: "topology_known [([0xE0], root_splits)] [([0xA0], [0x80]), ([0xE0], [0xA0])]"
    and k1: "topology_known [([0xE0], root_splits)] [([0xC0], [0x80]), ([0xE0], [0xC0])]"
    and u1: "\<not> topology_known [([0xE0], root_one_split)] [([0xA0], [0x80]), ([0xE0], [0xA0])]"
    by code_simp+
  have p0: "topology_probability [([0xE0], root_splits)] [([0xA0], [0x80]), ([0xE0], [0xA0])] = 1/3"
    and p1: "topology_probability [([0xE0], root_splits)] [([0xC0], [0x80]), ([0xE0], [0xC0])] = 2/3"
    by code_simp+
  have n: "n_features topology_table = 2"
    and h: "hashes_array topology_table = [[0xA0, 0xE0], [0xC0, 0xE0]]"
    by (simp_all add: topology_table_def)
  have known: "\<forall>i < n_features topology_table. topology_known [([0xE0], root_splits)] (?arrays ! i)"
    using k0 k1 by (simp add: n less_Suc_eq eval_nat_numeral)
  have unknown: "\<not> (\<forall>i < n_features topology_table.
      topology_known [([0xE0], root_one_split)] (?arrays ! i))"
    using u1 by (auto simp: n intro!: exI [of _ 0])
  from probabilities_from_ccs_product [OF topology_table_ok topology_table_sample,
      of "[([0xE0], root_splits)]"] known
  obtain self' where r: "probabilities_from_ccs (\<lambda>t. t) topology_table [([0xE0], root_splits)] = Inr self'"
    "\<forall>i < n_features topology_table.
        probabilities self' (hashes_array topology_table ! i) =
          Some (topology_probability [([0xE0], root_splits)] (?arrays ! i))"
    by blast
  from r(2) have "probabilities self' [0xA0, 0xE0] = Some (1/3)" "probabilities self' [0xC0, 0xE0] = Some (2/3)"
    using p0 p1 by (auto simp: n h less_Suc_eq eval_nat_numeral)
  moreover from probabilities_from_ccs_product [OF topology_table_ok topology_table_sample,
      of "[([0xE0], root_one_split)]"] unknown
  have "probabilities_from_ccs (\<lambda>t. t) topology_table [([0xE0], root_one_split)] = Inl KeyError"
    by blast
  ultimately show ?thesis
    using r(1) topology_table_ok topology_table_sample k0 k1 by simp
qed

theorem probabilities_from_ccs_unobserved_split:
  "map_of [([0xE0::byte], root_one_split)] [0xE0] = Some root_one_split \<and>
   probabilities root_one_split [0xA0] = None \<and>
   map_sum id probabilities_array
     (probabilities_from_ccs (\<lambda>t. t) topology_table [([0xE0], root_one_split)]) = Inl KeyError"
proof -
  have "map_sum id probabilities_array
     (probabilities_from_ccs (\<lambda>t. t) topology_table [([0xE0], root_one_split)]) = Inl KeyError"
    by code_simp
  then show ?thesis by (simp add: root_one_split_def)
qed

section \<open>Properties of the topology count\<close>

subsection \<open>Loops over buckets\<close>





subsection \<open>A table filled in dependency order\<close>



subsection \<open>The buckets\<close>

lemma set_set_add [simp]: "set (set_add x xs) = insert x (set xs)"
  by (auto simp: set_add_def)

lemma distinct_set_add [simp]: "distinct (set_add x xs) = distinct xs"
  by (auto simp: set_add_def)


subsection \<open>The count of one clade\<close>











subsection \<open>The count of the model\<close>




end
